theory Spec2Isabelle
  imports Main "HOL-Library.Word"
begin

section \<open>The saturation core of the PDD Groebner solver\<close>

text \<open>
  A shallow embedding of \<^verbatim>\<open>src/math/grobner/pdd_solver.cpp\<close>. Equations live on a
  heap and are referred to by address, as the C++ refers to them by pointer: the three
  queues and the watch lists are vectors of addresses, and an equation carries its own
  state and index. The polynomial algebra, the dependency manager and the pre-pass
  simplifier are not part of the file; they are parameters of the model.
\<close>

subsection \<open>Data\<close>

type_synonym addr = nat

datatype eq_state = Solved | To_simplify | Processed

record ('p, 'd) equation =
  m_state :: eq_state
  m_idx :: nat
  m_poly :: 'p
  m_dep :: 'd

text \<open>
  The counters are C++ \<^verbatim>\<open>unsigned\<close>, hence 32-bit words that wrap. The maximal
  expression size is a \<^verbatim>\<open>double\<close> in the source; it only ever holds tree sizes,
  which are natural numbers.
\<close>

record stats =
  m_simplified :: "32 word"
  m_max_expr_size :: nat
  m_max_expr_degree :: nat
  m_superposed :: "32 word"
  m_compute_steps :: "32 word"

record config =
  m_eqs_threshold :: "32 word"
  m_max_steps :: "32 word"

text \<open>
  The algebra contract consumed by the core. An operation that allocates nodes may raise
  the memory-exhaustion signal \<^verbatim>\<open>pdd_manager::mem_out\<close>: \<open>reduce\<close> and \<open>try_spoly\<close>
  return \<open>None\<close> then. \<open>try_spoly p q = Some None\<close> is the C++ result \<^verbatim>\<open>false\<close>,
  \<open>Some (Some r)\<close> is \<^verbatim>\<open>true\<close> with the S-polynomial written to \<open>r\<close>.
  \<open>lt\<close> is \<^verbatim>\<open>operator<\<close> on polynomials, \<open>too_complex\<close> the complexity heuristic
  and \<open>mk_join\<close> the join of the dependency manager.
\<close>

record ('p, 'd) algebra =
  is_val :: "'p \<Rightarrow> bool"
  is_zero :: "'p \<Rightarrow> bool"
  var :: "'p \<Rightarrow> nat"
  hi :: "'p \<Rightarrow> 'p"
  tree_size :: "'p \<Rightarrow> nat"
  degree :: "'p \<Rightarrow> nat"
  reduce :: "'p \<Rightarrow> 'p \<Rightarrow> 'p option"
  try_spoly :: "'p \<Rightarrow> 'p \<Rightarrow> 'p option option"
  different_leading_term :: "'p \<Rightarrow> 'p \<Rightarrow> bool"
  lt :: "'p \<Rightarrow> 'p \<Rightarrow> bool"
  too_complex :: "'p \<Rightarrow> bool"
  level2var :: "nat list"
  mk_join :: "'d \<Rightarrow> 'd \<Rightarrow> 'd"

text \<open>
  The solver object. \<open>heap\<close> is the store of allocated equations and \<open>next_addr\<close> the
  allocator: \<^verbatim>\<open>alloc\<close> hands out an address that was never used, \<^verbatim>\<open>dealloc\<close>
  removes the equation from the store. \<open>cancel_flag\<close> is what
  \<^verbatim>\<open>m_limit.get_cancel_flag()\<close> reads; the solver never writes it.
\<close>

record ('p, 'd) solver =
  heap :: "addr \<Rightarrow> ('p, 'd) equation option"
  next_addr :: addr
  m_solved :: "addr list"
  m_to_simplify :: "addr list"
  m_processed :: "addr list"
  m_watch :: "addr list list"
  m_level2var :: "nat list"
  m_var2level :: "nat list"
  m_levelp1 :: nat
  m_conflict :: "addr option"
  m_too_complex :: bool
  m_stats :: stats
  m_config :: config
  cancel_flag :: bool

text \<open>
  A call either returns a value or leaves by the exception \<^verbatim>\<open>mem_out\<close>. The
  exception carries a snapshot of the solver at the moment it was raised; destructors
  that run while the stack unwinds act on the current solver and leave the snapshot
  alone.
\<close>

datatype ('a, 's) outcome = Ret 'a | Mem_out 's

subsection \<open>Access to equations through their address\<close>

definition state_of :: "('p, 'd) solver \<Rightarrow> addr \<Rightarrow> eq_state" where
  "state_of s a = m_state (the (heap s a))"

definition idx_of :: "('p, 'd) solver \<Rightarrow> addr \<Rightarrow> nat" where
  "idx_of s a = m_idx (the (heap s a))"

definition poly_of :: "('p, 'd) solver \<Rightarrow> addr \<Rightarrow> 'p" where
  "poly_of s a = m_poly (the (heap s a))"

definition dep_of :: "('p, 'd) solver \<Rightarrow> addr \<Rightarrow> 'd" where
  "dep_of s a = m_dep (the (heap s a))"

definition upd_eq ::
  "addr \<Rightarrow> (('p, 'd) equation \<Rightarrow> ('p, 'd) equation) \<Rightarrow> ('p, 'd) solver \<Rightarrow> ('p, 'd) solver" where
  "upd_eq a f s = (case heap s a of None \<Rightarrow> s
     | Some e \<Rightarrow> s\<lparr>heap := (heap s)(a \<mapsto> f e)\<rparr>)"

definition set_state :: "addr \<Rightarrow> eq_state \<Rightarrow> ('p, 'd) solver \<Rightarrow> ('p, 'd) solver" where
  "set_state a st = upd_eq a (\<lambda>e. e\<lparr>m_state := st\<rparr>)"

definition set_index :: "addr \<Rightarrow> nat \<Rightarrow> ('p, 'd) solver \<Rightarrow> ('p, 'd) solver" where
  "set_index a i = upd_eq a (\<lambda>e. e\<lparr>m_idx := i\<rparr>)"

definition set_poly :: "addr \<Rightarrow> 'p \<Rightarrow> ('p, 'd) solver \<Rightarrow> ('p, 'd) solver" where
  "set_poly a p = upd_eq a (\<lambda>e. e\<lparr>m_poly := p\<rparr>)"

definition set_dep :: "addr \<Rightarrow> 'd \<Rightarrow> ('p, 'd) solver \<Rightarrow> ('p, 'd) solver" where
  "set_dep a d = upd_eq a (\<lambda>e. e\<lparr>m_dep := d\<rparr>)"

text \<open>\<^verbatim>\<open>alloc(equation, p, dep)\<close>: the constructor sets state \<^verbatim>\<open>to_simplify\<close> and index 0.\<close>

definition alloc_equation :: "'p \<Rightarrow> 'd \<Rightarrow> ('p, 'd) solver \<Rightarrow> addr \<times> ('p, 'd) solver" where
  "alloc_equation p d s =
     (next_addr s,
      s\<lparr>heap := (heap s)(next_addr s \<mapsto>
             \<lparr>m_state = To_simplify, m_idx = 0, m_poly = p, m_dep = d\<rparr>),
        next_addr := Suc (next_addr s)\<rparr>)"

text \<open>Modelled from the spec: \<^verbatim>\<open>retire(eq)\<close> of the header deallocates the equation.\<close>

definition retire :: "addr \<Rightarrow> ('p, 'd) solver \<Rightarrow> ('p, 'd) solver" where
  "retire a s = s\<lparr>heap := (heap s)(a := None)\<rparr>"

subsection \<open>Queues\<close>

definition get_queue :: "eq_state \<Rightarrow> ('p, 'd) solver \<Rightarrow> addr list" where
  "get_queue st s = (case st of Processed \<Rightarrow> m_processed s
     | To_simplify \<Rightarrow> m_to_simplify s | Solved \<Rightarrow> m_solved s)"

definition set_queue :: "eq_state \<Rightarrow> addr list \<Rightarrow> ('p, 'd) solver \<Rightarrow> ('p, 'd) solver" where
  "set_queue st v s = (case st of Processed \<Rightarrow> s\<lparr>m_processed := v\<rparr>
     | To_simplify \<Rightarrow> s\<lparr>m_to_simplify := v\<rparr> | Solved \<Rightarrow> s\<lparr>m_solved := v\<rparr>)"

text \<open>
  \<^verbatim>\<open>pop_equation\<close>: swap with the last entry, then \<^verbatim>\<open>pop_back\<close>. On an empty
  queue the C++ is undefined (\<^verbatim>\<open>v.size() - 1\<close> wraps and \<^verbatim>\<open>back()\<close> reads out of
  range); the model then leaves the empty queue as it is.
\<close>

definition pop_equation :: "addr \<Rightarrow> ('p, 'd) solver \<Rightarrow> ('p, 'd) solver" where
  "pop_equation a s =
     (let st = state_of s a; v = get_queue st s; idx = idx_of s a in
      if v = [] then s
      else if idx \<noteq> length v - 1 then
        (let eq2 = last v; s1 = set_index eq2 idx s
         in set_queue st (butlast (v[idx := eq2])) s1)
      else set_queue st (butlast v) s)"

definition push_equation :: "eq_state \<Rightarrow> addr \<Rightarrow> ('p, 'd) solver \<Rightarrow> ('p, 'd) solver" where
  "push_equation st a s =
     (let s1 = set_state a st s; v = get_queue st s1; s2 = set_index a (length v) s1
      in set_queue st (v @ [a]) s2)"

subsection \<open>Predicates of the header\<close>

text \<open>Modelled from the spec: \<^verbatim>\<open>is_trivial\<close> of the header, the polynomial is zero.\<close>

definition is_trivial :: "('p, 'd) algebra \<Rightarrow> ('p, 'd) solver \<Rightarrow> addr \<Rightarrow> bool" where
  "is_trivial A s a = is_zero A (poly_of s a)"

text \<open>Modelled from the spec: \<^verbatim>\<open>is_conflict\<close> of the header, a constant non-zero polynomial.\<close>

definition is_conflict :: "('p, 'd) algebra \<Rightarrow> ('p, 'd) solver \<Rightarrow> addr \<Rightarrow> bool" where
  "is_conflict A s a = (is_val A (poly_of s a) \<and> \<not> is_trivial A s a)"

text \<open>Modelled from the spec: \<^verbatim>\<open>set_conflict\<close> of the header records the conflict
  witness and pushes it to the solved queue.\<close>

definition set_conflict :: "addr \<Rightarrow> ('p, 'd) solver \<Rightarrow> ('p, 'd) solver" where
  "set_conflict a s = push_equation Solved a (s\<lparr>m_conflict := Some a\<rparr>)"

text \<open>Modelled from the spec: \<^verbatim>\<open>check_conflict\<close> of the header sets the conflict when
  the equation is one and reports whether it did.\<close>

definition check_conflict ::
  "('p, 'd) algebra \<Rightarrow> addr \<Rightarrow> ('p, 'd) solver \<Rightarrow> bool \<times> ('p, 'd) solver" where
  "check_conflict A a s = (if is_conflict A s a then (True, set_conflict a s) else (False, s))"

text \<open>Modelled from the spec: \<^verbatim>\<open>is_simpler\<close> of the header compares the polynomials by
  the order of the algebra.\<close>

definition is_simpler :: "('p, 'd) algebra \<Rightarrow> ('p, 'd) solver \<Rightarrow> addr \<Rightarrow> addr \<Rightarrow> bool" where
  "is_simpler A s a b = lt A (poly_of s a) (poly_of s b)"

definition canceled :: "('p, 'd) solver \<Rightarrow> bool" where
  "canceled s = cancel_flag s"

text \<open>
  \<^verbatim>\<open>solver::done()\<close> (\<open>done\<close> is a keyword of the proof language). The sizes
  of the two vectors are added as natural numbers: a vector holds fewer than \<open>2^32\<close> entries, and the sum is taken without wrap-around.
\<close>

definition solver_done :: "('p, 'd) solver \<Rightarrow> bool" where
  "solver_done s =
     (length (m_to_simplify s) + length (m_processed s) \<ge> unat (m_eqs_threshold (m_config s))
      \<or> canceled s
      \<or> m_compute_steps (m_stats s) > m_max_steps (m_config s)
      \<or> m_conflict s \<noteq> None)"

definition update_stats_max_degree_and_size ::
  "('p, 'd) algebra \<Rightarrow> addr \<Rightarrow> ('p, 'd) solver \<Rightarrow> ('p, 'd) solver" where
  "update_stats_max_degree_and_size A a s =
     s\<lparr>m_stats := (m_stats s)
        \<lparr>m_max_expr_size := max (m_max_expr_size (m_stats s)) (tree_size A (poly_of s a)),
         m_max_expr_degree := max (m_max_expr_degree (m_stats s)) (degree A (poly_of s a))\<rparr>\<rparr>"

subsection \<open>The watch index\<close>

definition add_to_watch :: "('p, 'd) algebra \<Rightarrow> addr \<Rightarrow> ('p, 'd) solver \<Rightarrow> ('p, 'd) solver" where
  "add_to_watch A a s =
     (let p = poly_of s a in
      if \<not> is_val A p then s\<lparr>m_watch := (m_watch s)[var A p := m_watch s ! var A p @ [a]]\<rparr>
      else s)"

text \<open>\<^verbatim>\<open>resize\<close> of a vector of unsigned: keep a prefix, pad with zero.\<close>

definition resize :: "nat \<Rightarrow> nat list \<Rightarrow> nat list" where
  "resize n xs = take n xs @ replicate (n - length xs) 0"

text \<open>The loop of \<^verbatim>\<open>init_saturate\<close> over the levels \<open>i = 0, ..., n - 1\<close>.\<close>

definition fill_levels :: "nat list \<Rightarrow> nat list \<times> nat list \<Rightarrow> nat list \<times> nat list" where
  "fill_levels l2v =
     fold (\<lambda>i (lv, vl). (lv[i := l2v ! i], vl[l2v ! i := i])) [0..<length l2v]"

text \<open>
  \<^verbatim>\<open>init_saturate\<close>. \<^verbatim>\<open>m_watch.reset(); m_watch.reserve(n)\<close> leaves \<open>n\<close> empty
  watch lists (\<^verbatim>\<open>reserve\<close> of the solver's vector type resizes).
\<close>

definition init_saturate :: "('p, 'd) algebra \<Rightarrow> ('p, 'd) solver \<Rightarrow> ('p, 'd) solver" where
  "init_saturate A s =
     (let l2v = level2var A; n = length l2v;
          (lv, vl) = fill_levels l2v (resize n (m_level2var s), resize n (m_var2level s));
          s1 = s\<lparr>m_level2var := lv, m_var2level := vl,
                 m_watch := replicate (length lv) [], m_levelp1 := length lv\<rparr>
      in fold (add_to_watch A) (m_to_simplify s1) s1)"

subsection \<open>Adding an equation\<close>

definition add :: "('p, 'd) algebra \<Rightarrow> 'p \<Rightarrow> 'd \<Rightarrow> ('p, 'd) solver \<Rightarrow> ('p, 'd) solver" where
  "add A p d s =
     (if is_zero A p then s
      else
        (let (a, s1) = alloc_equation p d s in
         case check_conflict A a s1 of
           (True, s2) \<Rightarrow> s2
         | (False, s2) \<Rightarrow>
             (let s3 = push_equation To_simplify a s2;
                  s4 = (if m_watch s3 \<noteq> []
                        then add_to_watch A a
                               (s3\<lparr>m_levelp1 := max (m_var2level s3 ! var A p + 1) (m_levelp1 s3)\<rparr>)
                        else s3)
              in update_stats_max_degree_and_size A a s4)))"

subsection \<open>The reducer\<close>

text \<open>
  \<^verbatim>\<open>try_simplify_using(dst, src, changed_leading_term)\<close>. The third argument is passed
  by reference; the model takes its value on entry and returns its value on exit
  together with the result.
\<close>

definition try_simplify_using ::
  "('p, 'd) algebra \<Rightarrow> addr \<Rightarrow> addr \<Rightarrow> bool \<Rightarrow> ('p, 'd) solver
   \<Rightarrow> (bool \<times> bool, ('p, 'd) solver) outcome \<times> ('p, 'd) solver" where
  "try_simplify_using A dst src clt s =
     (if src = dst then (Ret (False, clt), s)
      else
        (let s1 = s\<lparr>m_stats := (m_stats s)\<lparr>m_simplified := m_simplified (m_stats s) + 1\<rparr>\<rparr>;
             t = poly_of s1 src
         in case reduce A (poly_of s1 dst) t of
              None \<Rightarrow> (Mem_out s1, s1)
            | Some r \<Rightarrow>
                if r = poly_of s1 dst then (Ret (False, clt), s1)
                else if too_complex A r then (Ret (False, clt), s1\<lparr>m_too_complex := True\<rparr>)
                else
                  (let clt' = (state_of s1 dst = Processed
                               \<and> different_leading_term A r (poly_of s1 dst));
                       s2 = set_poly dst r s1;
                       s3 = set_dep dst (mk_join A (dep_of s2 dst) (dep_of s2 src)) s2;
                       s4 = update_stats_max_degree_and_size A dst s3
                   in (Ret (True, clt'), s4))))"

subsection \<open>Simplifying one equation by a set\<close>

text \<open>
  The \<^verbatim>\<open>for\<close> loop of \<^verbatim>\<open>simplify_using(eq, eqs)\<close>: one pass over \<open>eqs\<close>. The local
  \<^verbatim>\<open>changed_leading_term\<close> of the source is never read there; the pass hands \<open>False\<close>
  to the reducer and drops what comes back.
\<close>

fun simplify_pass ::
  "('p, 'd) algebra \<Rightarrow> addr \<Rightarrow> addr list \<Rightarrow> bool \<Rightarrow> ('p, 'd) solver
   \<Rightarrow> (bool, ('p, 'd) solver) outcome \<times> ('p, 'd) solver" where
  "simplify_pass A e [] simplified s = (Ret simplified, s)"
| "simplify_pass A e (p # ps) simplified s =
     (case try_simplify_using A e p False s of
        (Mem_out t, s1) \<Rightarrow> (Mem_out t, s1)
      | (Ret (b, _), s1) \<Rightarrow>
          (let simplified' = (simplified \<or> b) in
           if canceled s1 \<or> is_val A (poly_of s1 e) then (Ret simplified', s1)
           else simplify_pass A e ps simplified' s1))"

text \<open>
  The \<^verbatim>\<open>do ... while\<close> of \<^verbatim>\<open>simplify_using(eq, eqs)\<close>. Nothing in the core bounds
  the number of passes, so the loop is a partial function: \<open>None\<close> is a run that does
  not end.
\<close>

partial_function (option) simplify_using_eq ::
  "('p, 'd) algebra \<Rightarrow> addr \<Rightarrow> addr list \<Rightarrow> ('p, 'd) solver
   \<Rightarrow> ((unit, ('p, 'd) solver) outcome \<times> ('p, 'd) solver) option" where
  "simplify_using_eq A e eqs s =
     (case simplify_pass A e eqs False s of
        (Mem_out t, s1) \<Rightarrow> Some (Mem_out t, s1)
      | (Ret simplified, s1) \<Rightarrow>
          if simplified \<and> \<not> is_val A (poly_of s1 e) then simplify_using_eq A e eqs s1
          else Some (Ret (), s1))"

subsection \<open>Simplifying the processed set by one equation\<close>

text \<open>
  \<^verbatim>\<open>scoped_update::nextj\<close> and the destructor of \<^verbatim>\<open>scoped_update\<close>, on the vector
  \<^verbatim>\<open>m_processed\<close>, the only set \<^verbatim>\<open>simplify_using(set, eq)\<close> is called with in the
  file.
\<close>

definition nextj :: "nat \<Rightarrow> nat \<Rightarrow> ('p, 'd) solver \<Rightarrow> ('p, 'd) solver" where
  "nextj i j s =
     (let a = m_processed s ! i
      in set_index a j (s\<lparr>m_processed := (m_processed s)[j := a]\<rparr>))"

function scoped_update_dtor :: "nat \<Rightarrow> nat \<Rightarrow> nat \<Rightarrow> ('p, 'd) solver \<Rightarrow> ('p, 'd) solver" where
  "scoped_update_dtor i j sz s =
     (if i < sz then scoped_update_dtor (Suc i) (Suc j) sz (nextj i j s)
      else s\<lparr>m_processed := take j (m_processed s)\<rparr>)"
  by pat_completeness auto
termination
  by (relation "measure (\<lambda>(i, j, sz, s). sz - i)") auto

function simplify_using_set_loop ::
  "('p, 'd) algebra \<Rightarrow> addr \<Rightarrow> nat \<Rightarrow> nat \<Rightarrow> nat \<Rightarrow> ('p, 'd) solver
   \<Rightarrow> (unit, ('p, 'd) solver) outcome \<times> ('p, 'd) solver" where
  "simplify_using_set_loop A eq i j sz s =
     (if i < sz then
        (let target = m_processed s ! i in
         case (if \<not> solver_done s then try_simplify_using A target eq False s
               else (Ret (False, False), s)) of
           (Mem_out t, s1) \<Rightarrow> (Mem_out t, scoped_update_dtor i j sz s1)
         | (Ret (simplified, changed_leading_term), s1) \<Rightarrow>
             if simplified \<and> is_trivial A s1 target then
               simplify_using_set_loop A eq (Suc i) j sz (retire target s1)
             else if simplified \<and> is_conflict A s1 target then
               simplify_using_set_loop A eq (Suc i) j sz (set_conflict target s1)
             else if simplified \<and> changed_leading_term then
               (let s2 = push_equation To_simplify target s1;
                    s3 = (if m_watch s2 \<noteq> []
                          then add_to_watch A target
                                 (s2\<lparr>m_levelp1 :=
                                       max (m_var2level s2 ! var A (poly_of s2 target) + 1)
                                           (m_levelp1 s2)\<rparr>)
                          else s2)
                in simplify_using_set_loop A eq (Suc i) j sz s3)
             else simplify_using_set_loop A eq (Suc i) (Suc j) sz (nextj i j s1))
      else (Ret (), scoped_update_dtor i j sz s))"
  by pat_completeness auto
termination
  by (relation "measure (\<lambda>(A, eq, i, j, sz, s). sz - i)") auto

definition simplify_using_set ::
  "('p, 'd) algebra \<Rightarrow> addr \<Rightarrow> ('p, 'd) solver
   \<Rightarrow> (unit, ('p, 'd) solver) outcome \<times> ('p, 'd) solver" where
  "simplify_using_set A eq s = simplify_using_set_loop A eq 0 0 (length (m_processed s)) s"

subsection \<open>Superposition\<close>

definition superpose2 ::
  "('p, 'd) algebra \<Rightarrow> addr \<Rightarrow> addr \<Rightarrow> ('p, 'd) solver
   \<Rightarrow> (unit, ('p, 'd) solver) outcome \<times> ('p, 'd) solver" where
  "superpose2 A eq1 eq2 s =
     (case try_spoly A (poly_of s eq1) (poly_of s eq2) of
        None \<Rightarrow> (Mem_out s, s)
      | Some None \<Rightarrow> (Ret (), s)
      | Some (Some r) \<Rightarrow>
          if \<not> is_zero A r then
            (if too_complex A r then (Ret (), s\<lparr>m_too_complex := True\<rparr>)
             else
               (let s1 = s\<lparr>m_stats := (m_stats s)\<lparr>m_superposed := m_superposed (m_stats s) + 1\<rparr>\<rparr>
                in (Ret (), add A r (mk_join A (dep_of s1 eq1) (dep_of s1 eq2)) s1)))
          else (Ret (), s))"

fun superpose_loop ::
  "('p, 'd) algebra \<Rightarrow> addr \<Rightarrow> addr list \<Rightarrow> ('p, 'd) solver
   \<Rightarrow> (unit, ('p, 'd) solver) outcome \<times> ('p, 'd) solver" where
  "superpose_loop A eq [] s = (Ret (), s)"
| "superpose_loop A eq (target # ts) s =
     (case superpose2 A eq target s of
        (Mem_out t, s1) \<Rightarrow> (Mem_out t, s1)
      | (Ret _, s1) \<Rightarrow> superpose_loop A eq ts s1)"

definition superpose ::
  "('p, 'd) algebra \<Rightarrow> addr \<Rightarrow> ('p, 'd) solver
   \<Rightarrow> (unit, ('p, 'd) solver) outcome \<times> ('p, 'd) solver" where
  "superpose A eq s = superpose_loop A eq (m_processed s) s"

subsection \<open>Simplifying a watch list\<close>

function simplify_watch_loop ::
  "('p, 'd) algebra \<Rightarrow> addr \<Rightarrow> nat \<Rightarrow> nat \<Rightarrow> nat \<Rightarrow> nat \<Rightarrow> ('p, 'd) solver
   \<Rightarrow> (unit, ('p, 'd) solver) outcome \<times> ('p, 'd) solver" where
  "simplify_watch_loop A eq v k j n s =
     (if k < n then
        (let target = m_watch s ! v ! k in
         case (if \<not> solver_done s then try_simplify_using A target eq False s
               else (Ret (False, False), s)) of
           (Mem_out t, s1) \<Rightarrow> (Mem_out t, s1)
         | (Ret _, s1) \<Rightarrow>
             if is_trivial A s1 target then
               simplify_watch_loop A eq v (Suc k) j n (retire target (pop_equation target s1))
             else if is_conflict A s1 target then
               simplify_watch_loop A eq v (Suc k) j n (set_conflict target (pop_equation target s1))
             else if var A (poly_of s1 target) \<noteq> v then
               (let v' = var A (poly_of s1 target)
                in simplify_watch_loop A eq v (Suc k) j n
                     (s1\<lparr>m_watch := (m_watch s1)[v' := m_watch s1 ! v' @ [target]]\<rparr>))
             else
               simplify_watch_loop A eq v (Suc k) (Suc j) n
                 (s1\<lparr>m_watch := (m_watch s1)[v := (m_watch s1 ! v)[j := target]]\<rparr>))
      else (Ret (), s\<lparr>m_watch := (m_watch s)[v := take j (m_watch s ! v)]\<rparr>))"
  by pat_completeness auto
termination
  by (relation "measure (\<lambda>(A, eq, v, k, j, n, s). n - k)") auto

definition simplify_watch ::
  "('p, 'd) algebra \<Rightarrow> addr \<Rightarrow> ('p, 'd) solver
   \<Rightarrow> (unit, ('p, 'd) solver) outcome \<times> ('p, 'd) solver" where
  "simplify_watch A eq s =
     (let v = var A (poly_of s eq)
      in simplify_watch_loop A eq v 0 0 (length (m_watch s ! v)) s)"

subsection \<open>The scheduler\<close>

fun pick_scan ::
  "('p, 'd) algebra \<Rightarrow> ('p, 'd) solver \<Rightarrow> nat \<Rightarrow> addr list \<Rightarrow> addr option \<Rightarrow> addr option" where
  "pick_scan A s v [] eq = eq"
| "pick_scan A s v (cur # cs) eq =
     pick_scan A s v cs
       (if state_of s cur = To_simplify \<and> var A (poly_of s cur) = v
        then (case eq of None \<Rightarrow> Some cur
              | Some e \<Rightarrow> if is_simpler A s cur e then Some cur else eq)
        else eq)"

function pick_next ::
  "('p, 'd) algebra \<Rightarrow> ('p, 'd) solver \<Rightarrow> addr option \<times> ('p, 'd) solver" where
  "pick_next A s =
     (if m_levelp1 s > 0 then
        (let v = m_level2var s ! (m_levelp1 s - 1)
         in case pick_scan A s v (m_watch s ! v) None of
              Some eq \<Rightarrow>
                (let s1 = pop_equation eq s;
                     v' = var A (poly_of s1 eq)
                 in (Some eq, s1\<lparr>m_watch := (m_watch s1)[v' := remove1 eq (m_watch s1 ! v')]\<rparr>))
            | None \<Rightarrow> pick_next A (s\<lparr>m_levelp1 := m_levelp1 s - 1\<rparr>))
      else (None, s))"
  by pat_completeness auto
termination
  by (relation "measure (\<lambda>(A, s). m_levelp1 s)") auto

subsection \<open>One step and the driver\<close>

text \<open>
  The commit guard \<^verbatim>\<open>scoped_process\<close>: \<open>scoped_process_done\<close> is its member
  \<^verbatim>\<open>done()\<close>, \<open>scoped_process_dtor\<close> its destructor applied to the field \<^verbatim>\<open>e\<close>
  (\<open>None\<close> is \<^verbatim>\<open>nullptr\<close>).
\<close>

definition scoped_process_done ::
  "('p, 'd) algebra \<Rightarrow> addr \<Rightarrow> ('p, 'd) solver \<Rightarrow> ('p, 'd) solver" where
  "scoped_process_done A e s =
     (if is_val A (hi A (poly_of s e)) then push_equation Solved e s
      else push_equation Processed e s)"

definition scoped_process_dtor :: "addr option \<Rightarrow> ('p, 'd) solver \<Rightarrow> ('p, 'd) solver" where
  "scoped_process_dtor sd_e s = (case sd_e of None \<Rightarrow> s | Some e \<Rightarrow> push_equation Processed e s)"

definition step ::
  "('p, 'd) algebra \<Rightarrow> ('p, 'd) solver
   \<Rightarrow> ((bool, ('p, 'd) solver) outcome \<times> ('p, 'd) solver) option" where
  "step A s0 =
     (let s = s0\<lparr>m_stats := (m_stats s0)\<lparr>m_compute_steps := m_compute_steps (m_stats s0) + 1\<rparr>\<rparr>
      in case pick_next A s of
           (None, s1) \<Rightarrow> Some (Ret False, s1)
         | (Some e, s1) \<Rightarrow>
           (case simplify_using_eq A e (m_processed s1) s1 of
              None \<Rightarrow> None
            | Some (Mem_out t, s2) \<Rightarrow> Some (Mem_out t, scoped_process_dtor (Some e) s2)
            | Some (Ret _, s2) \<Rightarrow>
                if is_trivial A s2 e then Some (Ret True, scoped_process_dtor None (retire e s2))
                else
                  (case check_conflict A e s2 of
                     (True, s3) \<Rightarrow> Some (Ret False, scoped_process_dtor None s3)
                   | (False, s3) \<Rightarrow>
                     (let s4 = s3\<lparr>m_too_complex := False\<rparr> in
                      case simplify_using_set A e s4 of
                        (Mem_out t, s5) \<Rightarrow> Some (Mem_out t, scoped_process_dtor (Some e) s5)
                      | (Ret _, s5) \<Rightarrow>
                          if solver_done s5 then Some (Ret False, scoped_process_dtor (Some e) s5)
                          else
                            (case superpose A e s5 of
                               (Mem_out t, s6) \<Rightarrow>
                                 Some (Mem_out t, scoped_process_dtor (Some e) s6)
                             | (Ret _, s6) \<Rightarrow>
                               (case simplify_watch A e s6 of
                                  (Mem_out t, s7) \<Rightarrow>
                                    Some (Mem_out t, scoped_process_dtor (Some e) s7)
                                | (Ret _, s7) \<Rightarrow>
                                    if solver_done s7
                                    then Some (Ret False, scoped_process_dtor (Some e) s7)
                                    else if \<not> m_too_complex s7
                                    then Some (Ret True,
                                           scoped_process_dtor None (scoped_process_done A e s7))
                                    else Some (Ret True, scoped_process_dtor (Some e) s7)))))))"

text \<open>
  The \<^verbatim>\<open>try\<close> block of \<^verbatim>\<open>saturate\<close>: the loop \<^verbatim>\<open>while (!done() && step())\<close>.
\<close>

partial_function (option) saturate_loop ::
  "('p, 'd) algebra \<Rightarrow> ('p, 'd) solver
   \<Rightarrow> ((unit, ('p, 'd) solver) outcome \<times> ('p, 'd) solver) option" where
  "saturate_loop A s =
     (if \<not> solver_done s then
        (case step A s of
           None \<Rightarrow> None
         | Some (Mem_out t, s1) \<Rightarrow> Some (Mem_out t, s1)
         | Some (Ret b, s1) \<Rightarrow> if b then saturate_loop A s1 else Some (Ret (), s1))
      else Some (Ret (), s))"

text \<open>
  \<^verbatim>\<open>saturate\<close>. The pre-pass simplifier \<^verbatim>\<open>simplify()\<close> is not part of the file and is
  the parameter \<open>simplify\<close>. The handler of \<^verbatim>\<open>mem_out\<close> resets the watch index.
\<close>

definition saturate ::
  "('p, 'd) algebra \<Rightarrow> (('p, 'd) solver \<Rightarrow> ('p, 'd) solver) \<Rightarrow> ('p, 'd) solver
   \<Rightarrow> ('p, 'd) solver option" where
  "saturate A simplify s =
     (case saturate_loop A (init_saturate A (simplify s)) of
        None \<Rightarrow> None
      | Some (Ret _, s1) \<Rightarrow> Some s1
      | Some (Mem_out t, s1) \<Rightarrow> Some (s1\<lparr>m_watch := []\<rparr>))"

text \<open>
  \<^verbatim>\<open>collect_statistics\<close>: the keys and the values written to the sink, in the order
  of the source.
\<close>

definition collect_statistics :: "('p, 'd) solver \<Rightarrow> (string \<times> nat) list" where
  "collect_statistics s =
     [(''dd.solver.steps'', unat (m_compute_steps (m_stats s))),
      (''dd.solver.simplified'', unat (m_simplified (m_stats s))),
      (''dd.solver.superposed'', unat (m_superposed (m_stats s))),
      (''dd.solver.processed'', length (m_processed s)),
      (''dd.solver.solved'', length (m_solved s)),
      (''dd.solver.to_simplify'', length (m_to_simplify s)),
      (''dd.solver.degree'', m_max_expr_degree (m_stats s)),
      (''dd.solver.size'', m_max_expr_size (m_stats s))]"

subsection \<open>What the claims speak about\<close>

text \<open>
  The structural invariant of \<^verbatim>\<open>solver::invariant()\<close>. \<open>eq_at s a st i\<close>: the address
  \<open>a\<close> holds an equation whose state is \<open>st\<close> and whose index is \<open>i\<close>. A queue is
  well-formed when each of its entries is labelled with the queue and with its position
  there.
\<close>

definition eq_at :: "('p, 'd) solver \<Rightarrow> addr \<Rightarrow> eq_state \<Rightarrow> nat \<Rightarrow> bool" where
  "eq_at s a st i = (case heap s a of None \<Rightarrow> False | Some e \<Rightarrow> m_state e = st \<and> m_idx e = i)"

definition queue_ok :: "eq_state \<Rightarrow> ('p, 'd) solver \<Rightarrow> bool" where
  "queue_ok st s = (\<forall>i < length (get_queue st s). eq_at s (get_queue st s ! i) st i)"

definition queues_ok :: "('p, 'd) solver \<Rightarrow> bool" where
  "queues_ok s = (queue_ok Solved s \<and> queue_ok To_simplify s \<and> queue_ok Processed s)"

text \<open>The allocator is ahead of every allocated address.\<close>

definition alloc_ok :: "('p, 'd) solver \<Rightarrow> bool" where
  "alloc_ok s = (\<forall>a. heap s a \<noteq> None \<longrightarrow> a < next_addr s)"

text \<open>No equation in to-simplify or processed has a constant polynomial.\<close>

definition nonval :: "('p, 'd) algebra \<Rightarrow> ('p, 'd) solver \<Rightarrow> bool" where
  "nonval A s = (\<forall>a \<in> set (m_to_simplify s) \<union> set (m_processed s). \<not> is_val A (poly_of s a))"

text \<open>Solved form \<open>x * c + r\<close>: not a constant, and the coefficient \<open>hi\<close> of the leading
  variable is a constant. It is the test of \<^verbatim>\<open>invariant()\<close> for a head variable.\<close>

definition solved_form :: "('p, 'd) algebra \<Rightarrow> 'p \<Rightarrow> bool" where
  "solved_form A p = (\<not> is_val A p \<and> is_val A (hi A p))"

definition all_solved_form :: "('p, 'd) algebra \<Rightarrow> ('p, 'd) solver \<Rightarrow> bool" where
  "all_solved_form A s = (\<forall>a \<in> set (m_solved s). solved_form A (poly_of s a))"

definition solved_shape :: "('p, 'd) algebra \<Rightarrow> ('p, 'd) solver \<Rightarrow> bool" where
  "solved_shape A s =
     (\<forall>a \<in> set (m_solved s). solved_form A (poly_of s a)
         \<or> (is_val A (poly_of s a) \<and> \<not> is_zero A (poly_of s a)))"

text \<open>The test of \<open>pick_next\<close> on a watch entry.\<close>

definition eligible :: "('p, 'd) algebra \<Rightarrow> ('p, 'd) solver \<Rightarrow> nat \<Rightarrow> addr \<Rightarrow> bool" where
  "eligible A s v c = (state_of s c = To_simplify \<and> var A (poly_of s c) = v)"

text \<open>
  The watch invariant in the words of the specification: every entry of a watch list
  \<open>w[v]\<close> is in state to-simplify, has leading variable \<open>v\<close> and is in the to-simplify
  queue; every equation of that queue occurs exactly once in the watch list of its
  leading variable; no processed equation occurs in a watch list.
\<close>

definition watch_inv :: "('p, 'd) algebra \<Rightarrow> ('p, 'd) solver \<Rightarrow> bool" where
  "watch_inv A s =
     ((\<forall>v < length (m_watch s). \<forall>a \<in> set (m_watch s ! v).
          state_of s a = To_simplify \<and> var A (poly_of s a) = v \<and> a \<in> set (m_to_simplify s))
      \<and> (\<forall>a \<in> set (m_to_simplify s).
            var A (poly_of s a) < length (m_watch s)
            \<and> count_list (m_watch s ! var A (poly_of s a)) a = 1)
      \<and> (\<forall>a \<in> set (m_processed s). \<forall>v < length (m_watch s). a \<notin> set (m_watch s ! v)))"

text \<open>The same, in the form the proofs carry through the loops.\<close>

definition watch_ok :: "('p, 'd) algebra \<Rightarrow> ('p, 'd) solver \<Rightarrow> bool" where
  "watch_ok A s =
     ((\<forall>v < length (m_watch s). distinct (m_watch s ! v)
          \<and> (\<forall>a \<in> set (m_watch s ! v). a \<in> set (m_to_simplify s) \<and> var A (poly_of s a) = v))
      \<and> (\<forall>a \<in> set (m_to_simplify s).
            var A (poly_of s a) < length (m_watch s)
            \<and> a \<in> set (m_watch s ! var A (poly_of s a))))"

text \<open>
  The level tables are the algebra's order and its inverse, and every equation in
  to-simplify has its leading variable below the high-water mark \<open>m_levelp1\<close>.
\<close>

definition levels_ok :: "('p, 'd) algebra \<Rightarrow> ('p, 'd) solver \<Rightarrow> bool" where
  "levels_ok A s =
     (let n = length (level2var A) in
      m_level2var s = level2var A \<and> length (m_var2level s) = n \<and> length (m_watch s) = n
      \<and> (\<forall>l < n. m_var2level s ! (level2var A ! l) = l)
      \<and> m_levelp1 s \<le> n
      \<and> (\<forall>a \<in> set (m_to_simplify s). m_var2level s ! var A (poly_of s a) < m_levelp1 s))"

text \<open>
  What the core relies on in the algebra: zero is a constant, the leading variable of a
  polynomial that is not a constant is one of the variables of the order, and the order
  \<open>level2var\<close> lists each variable once.
\<close>

definition wf_algebra :: "('p, 'd) algebra \<Rightarrow> bool" where
  "wf_algebra A =
     ((\<forall>p. is_zero A p \<longrightarrow> is_val A p)
      \<and> (\<forall>p. \<not> is_val A p \<longrightarrow> var A p < length (level2var A))
      \<and> distinct (level2var A)
      \<and> set (level2var A) = {..<length (level2var A)})"

text \<open>Reduction does not raise the level of the leading variable.\<close>

definition reduce_lowers :: "('p, 'd) algebra \<Rightarrow> bool" where
  "reduce_lowers A =
     (\<forall>p q r. reduce A p q = Some r \<longrightarrow> \<not> is_val A p \<longrightarrow> \<not> is_val A r \<longrightarrow>
        (\<forall>l < length (level2var A). \<forall>l' < length (level2var A).
           level2var A ! l = var A p \<longrightarrow> level2var A ! l' = var A r \<longrightarrow> l' \<le> l))"

text \<open>The invariant of the saturation loop.\<close>

definition solver_inv :: "('p, 'd) algebra \<Rightarrow> ('p, 'd) solver \<Rightarrow> bool" where
  "solver_inv A s =
     (queues_ok s \<and> alloc_ok s \<and> nonval A s \<and> solved_shape A s \<and> watch_ok A s
      \<and> levels_ok A s)"

text \<open>What is left of it when the watch index has been given up.\<close>

definition core_inv :: "('p, 'd) algebra \<Rightarrow> ('p, 'd) solver \<Rightarrow> bool" where
  "core_inv A s = (queues_ok s \<and> alloc_ok s \<and> nonval A s \<and> solved_shape A s)"

subsection \<open>Frames\<close>

text \<open>\<open>frame dst s s'\<close>: from \<open>s\<close> to \<open>s'\<close> nothing changed but statistics, the flag
  \<open>m_too_complex\<close>, and the polynomial and dependency of the equation at \<open>dst\<close>.\<close>

definition shape :: "('p, 'd) equation option \<Rightarrow> (eq_state \<times> nat) option" where
  "shape = map_option (\<lambda>e. (m_state e, m_idx e))"

definition frame :: "addr \<Rightarrow> ('p, 'd) solver \<Rightarrow> ('p, 'd) solver \<Rightarrow> bool" where
  "frame dst s s' =
     (next_addr s' = next_addr s \<and> m_solved s' = m_solved s
      \<and> m_to_simplify s' = m_to_simplify s \<and> m_processed s' = m_processed s
      \<and> m_watch s' = m_watch s \<and> m_level2var s' = m_level2var s
      \<and> m_var2level s' = m_var2level s \<and> m_levelp1 s' = m_levelp1 s
      \<and> m_conflict s' = m_conflict s \<and> m_config s' = m_config s
      \<and> cancel_flag s' = cancel_flag s
      \<and> m_compute_steps (m_stats s') = m_compute_steps (m_stats s)
      \<and> (\<forall>b. b \<noteq> dst \<longrightarrow> heap s' b = heap s b)
      \<and> shape (heap s' dst) = shape (heap s dst))"

subsection \<open>A small instance of the algebra\<close>

text \<open>
  Decision-diagram polynomials in two variables \<open>x\<^sub>0\<close> and \<open>x\<^sub>1\<close>: \<open>Node b h l\<close> is
  \<open>x * h + l\<close> with \<open>x = x\<^sub>1\<close> when \<open>b\<close> holds and \<open>x = x\<^sub>0\<close> otherwise, and \<open>Val c\<close> is
  the constant \<open>c\<close>. The instance reduces \<open>a * x + b\<close> by \<open>a * x + d\<close> to the constant
  \<open>b - d\<close> and leaves every other polynomial alone; it forms no S-polynomial. It is the
  instance the concrete runs below are evaluated on. \<open>oom_algebra\<close> is the same
  algebra with a manager that has no node left: every reduction raises
  \<^verbatim>\<open>mem_out\<close>. \<open>capped_algebra k\<close> is the same algebra with the size limit \<open>k\<close> for
  the complexity heuristic.
\<close>

datatype pdd = Val int | Node bool pdd pdd

fun pdd_is_val :: "pdd \<Rightarrow> bool" where
  "pdd_is_val (Val c) = True"
| "pdd_is_val (Node v h l) = False"

fun pdd_var :: "pdd \<Rightarrow> nat" where
  "pdd_var (Val c) = 0"
| "pdd_var (Node v h l) = (if v then 1 else 0)"

fun pdd_hi :: "pdd \<Rightarrow> pdd" where
  "pdd_hi (Val c) = Val 0"
| "pdd_hi (Node v h l) = h"

fun pdd_size :: "pdd \<Rightarrow> nat" where
  "pdd_size (Val c) = 1"
| "pdd_size (Node v h l) = 1 + pdd_size h + pdd_size l"

fun pdd_degree :: "pdd \<Rightarrow> nat" where
  "pdd_degree (Val c) = 0"
| "pdd_degree (Node v h l) = max (1 + pdd_degree h) (pdd_degree l)"

fun pdd_reduce :: "pdd \<Rightarrow> pdd \<Rightarrow> pdd" where
  "pdd_reduce (Node v (Val a) (Val b)) (Node w (Val c) (Val d)) =
     (if v = w \<and> a = c then Val (b - d) else Node v (Val a) (Val b))"
| "pdd_reduce p q = p"

definition lin_algebra :: "(pdd, nat list) algebra" where
  "lin_algebra =
     \<lparr>is_val = pdd_is_val, is_zero = (\<lambda>p. p = Val 0), var = pdd_var, hi = pdd_hi,
      tree_size = pdd_size, degree = pdd_degree,
      reduce = (\<lambda>p q. Some (pdd_reduce p q)),
      try_spoly = (\<lambda>p q. Some None),
      different_leading_term = (\<lambda>p q. pdd_is_val p \<noteq> pdd_is_val q \<or> pdd_var p \<noteq> pdd_var q),
      lt = (\<lambda>p q. pdd_size p < pdd_size q),
      too_complex = (\<lambda>p. False),
      level2var = [0, 1],
      mk_join = (\<lambda>a b. a @ b)\<rparr>"

definition oom_algebra :: "(pdd, nat list) algebra" where
  "oom_algebra = lin_algebra\<lparr>reduce := (\<lambda>p q. None)\<rparr>"

definition capped_algebra :: "nat \<Rightarrow> (pdd, nat list) algebra" where
  "capped_algebra k = lin_algebra\<lparr>too_complex := (\<lambda>p. k < pdd_size p)\<rparr>"

text \<open>A solver as the constructor leaves it, with the default configuration
  (\<^verbatim>\<open>UINT_MAX\<close> for both bounds).\<close>

definition empty_solver :: "(pdd, nat list) solver" where
  "empty_solver =
     \<lparr>heap = (\<lambda>a. None), next_addr = 0, m_solved = [], m_to_simplify = [], m_processed = [],
      m_watch = [], m_level2var = [], m_var2level = [], m_levelp1 = 0, m_conflict = None,
      m_too_complex = False,
      m_stats = \<lparr>m_simplified = 0, m_max_expr_size = 0, m_max_expr_degree = 0,
                 m_superposed = 0, m_compute_steps = 0\<rparr>,
      m_config = \<lparr>m_eqs_threshold = - 1, m_max_steps = - 1\<rparr>,
      cancel_flag = False\<rparr>"

text \<open>
  The solver after \<^verbatim>\<open>add(x, d0)\<close> and \<^verbatim>\<open>add(x + 1, d1)\<close> for \<open>x = x\<^sub>0\<close>: two
  equations in to-simplify, at the addresses 0 and 1.
\<close>

definition two_eqs :: "(pdd, nat list) solver" where
  "two_eqs =
     \<lparr>heap = [0 \<mapsto> \<lparr>m_state = To_simplify, m_idx = 0,
                       m_poly = Node False (Val 1) (Val 0), m_dep = [0]\<rparr>,
              1 \<mapsto> \<lparr>m_state = To_simplify, m_idx = 1,
                       m_poly = Node False (Val 1) (Val 1), m_dep = [1]\<rparr>],
      next_addr = 2, m_solved = [], m_to_simplify = [0, 1], m_processed = [],
      m_watch = [], m_level2var = [], m_var2level = [], m_levelp1 = 0, m_conflict = None,
      m_too_complex = False,
      m_stats = \<lparr>m_simplified = 0, m_max_expr_size = 3, m_max_expr_degree = 1,
                 m_superposed = 0, m_compute_steps = 0\<rparr>,
      m_config = \<lparr>m_eqs_threshold = - 1, m_max_steps = - 1\<rparr>,
      cancel_flag = False\<rparr>"

text \<open>The same solver after \<open>init_saturate\<close>: both equations are watched by \<open>x\<^sub>0\<close>.\<close>

definition two_watched :: "(pdd, nat list) solver" where
  "two_watched = two_eqs\<lparr>m_watch := [[0, 1], []], m_level2var := [0, 1],
                         m_var2level := [0, 1], m_levelp1 := 2\<rparr>"

section \<open>Properties\<close>

subsection \<open>Projections of the primitive updates\<close>

lemma upd_eq_fields [simp]:
  "next_addr (upd_eq a f s) = next_addr s"
  "m_solved (upd_eq a f s) = m_solved s"
  "m_to_simplify (upd_eq a f s) = m_to_simplify s"
  "m_processed (upd_eq a f s) = m_processed s"
  "m_watch (upd_eq a f s) = m_watch s"
  "m_level2var (upd_eq a f s) = m_level2var s"
  "m_var2level (upd_eq a f s) = m_var2level s"
  "m_levelp1 (upd_eq a f s) = m_levelp1 s"
  "m_conflict (upd_eq a f s) = m_conflict s"
  "m_too_complex (upd_eq a f s) = m_too_complex s"
  "m_stats (upd_eq a f s) = m_stats s"
  "m_config (upd_eq a f s) = m_config s"
  "cancel_flag (upd_eq a f s) = cancel_flag s"
  by (simp_all add: upd_eq_def split: option.splits)

lemma heap_upd_eq [simp]:
  "heap (upd_eq a f s) b = (if b = a then map_option f (heap s a) else heap s b)"
  by (simp add: upd_eq_def split: option.splits)

declare pick_next.simps [simp del] simplify_using_set_loop.simps [simp del]
  simplify_watch_loop.simps [simp del] scoped_update_dtor.simps [simp del]


subsection \<open>More projections\<close>

lemma retire_fields [simp]:
  "next_addr (retire a s) = next_addr s"
  "m_solved (retire a s) = m_solved s"
  "m_to_simplify (retire a s) = m_to_simplify s"
  "m_processed (retire a s) = m_processed s"
  "m_watch (retire a s) = m_watch s"
  "m_level2var (retire a s) = m_level2var s"
  "m_var2level (retire a s) = m_var2level s"
  "m_levelp1 (retire a s) = m_levelp1 s"
  "m_conflict (retire a s) = m_conflict s"
  "m_too_complex (retire a s) = m_too_complex s"
  "m_stats (retire a s) = m_stats s"
  "m_config (retire a s) = m_config s"
  "cancel_flag (retire a s) = cancel_flag s"
  "heap (retire a s) b = (if b = a then None else heap s b)"
  by (simp_all add: retire_def)

lemmas setter_defs = set_state_def set_index_def set_poly_def set_dep_def

lemma push_equation_fields [simp]:
  "next_addr (push_equation st a s) = next_addr s"
  "m_solved (push_equation st a s) = (if st = Solved then m_solved s @ [a] else m_solved s)"
  "m_to_simplify (push_equation st a s)
     = (if st = To_simplify then m_to_simplify s @ [a] else m_to_simplify s)"
  "m_processed (push_equation st a s)
     = (if st = Processed then m_processed s @ [a] else m_processed s)"
  "m_watch (push_equation st a s) = m_watch s"
  "m_level2var (push_equation st a s) = m_level2var s"
  "m_var2level (push_equation st a s) = m_var2level s"
  "m_levelp1 (push_equation st a s) = m_levelp1 s"
  "m_conflict (push_equation st a s) = m_conflict s"
  "m_too_complex (push_equation st a s) = m_too_complex s"
  "m_stats (push_equation st a s) = m_stats s"
  "m_config (push_equation st a s) = m_config s"
  "cancel_flag (push_equation st a s) = cancel_flag s"
  by (cases st; simp add: push_equation_def Let_def get_queue_def set_queue_def setter_defs)+

lemma heap_push_equation [simp]:
  "heap (push_equation st a s) b =
     (if b = a then map_option (\<lambda>e. e\<lparr>m_state := st, m_idx := length (get_queue st s)\<rparr>) (heap s a)
      else heap s b)"
  by (cases st; cases "heap s a";
      simp add: push_equation_def Let_def get_queue_def set_queue_def setter_defs)

lemma get_queue_push_equation [simp]:
  "get_queue st' (push_equation st a s)
     = (if st' = st then get_queue st s @ [a] else get_queue st' s)"
  by (cases st; cases st'; simp add: get_queue_def)

lemma set_conflict_fields [simp]:
  "next_addr (set_conflict a s) = next_addr s"
  "m_solved (set_conflict a s) = m_solved s @ [a]"
  "m_to_simplify (set_conflict a s) = m_to_simplify s"
  "m_processed (set_conflict a s) = m_processed s"
  "m_watch (set_conflict a s) = m_watch s"
  "m_level2var (set_conflict a s) = m_level2var s"
  "m_var2level (set_conflict a s) = m_var2level s"
  "m_levelp1 (set_conflict a s) = m_levelp1 s"
  "m_conflict (set_conflict a s) = Some a"
  "m_too_complex (set_conflict a s) = m_too_complex s"
  "m_stats (set_conflict a s) = m_stats s"
  "m_config (set_conflict a s) = m_config s"
  "cancel_flag (set_conflict a s) = cancel_flag s"
  "heap (set_conflict a s) b =
     (if b = a then map_option (\<lambda>e. e\<lparr>m_state := Solved, m_idx := length (m_solved s)\<rparr>) (heap s a)
      else heap s b)"
  by (simp_all add: set_conflict_def get_queue_def)

lemma add_to_watch_fields [simp]:
  "next_addr (add_to_watch A a s) = next_addr s"
  "m_solved (add_to_watch A a s) = m_solved s"
  "m_to_simplify (add_to_watch A a s) = m_to_simplify s"
  "m_processed (add_to_watch A a s) = m_processed s"
  "m_level2var (add_to_watch A a s) = m_level2var s"
  "m_var2level (add_to_watch A a s) = m_var2level s"
  "m_levelp1 (add_to_watch A a s) = m_levelp1 s"
  "m_conflict (add_to_watch A a s) = m_conflict s"
  "m_too_complex (add_to_watch A a s) = m_too_complex s"
  "m_stats (add_to_watch A a s) = m_stats s"
  "m_config (add_to_watch A a s) = m_config s"
  "cancel_flag (add_to_watch A a s) = cancel_flag s"
  "heap (add_to_watch A a s) = heap s"
  by (simp_all add: add_to_watch_def Let_def)

lemma update_stats_fields [simp]:
  "next_addr (update_stats_max_degree_and_size A a s) = next_addr s"
  "m_solved (update_stats_max_degree_and_size A a s) = m_solved s"
  "m_to_simplify (update_stats_max_degree_and_size A a s) = m_to_simplify s"
  "m_processed (update_stats_max_degree_and_size A a s) = m_processed s"
  "m_watch (update_stats_max_degree_and_size A a s) = m_watch s"
  "m_level2var (update_stats_max_degree_and_size A a s) = m_level2var s"
  "m_var2level (update_stats_max_degree_and_size A a s) = m_var2level s"
  "m_levelp1 (update_stats_max_degree_and_size A a s) = m_levelp1 s"
  "m_conflict (update_stats_max_degree_and_size A a s) = m_conflict s"
  "m_too_complex (update_stats_max_degree_and_size A a s) = m_too_complex s"
  "m_config (update_stats_max_degree_and_size A a s) = m_config s"
  "cancel_flag (update_stats_max_degree_and_size A a s) = cancel_flag s"
  "heap (update_stats_max_degree_and_size A a s) = heap s"
  "m_simplified (m_stats (update_stats_max_degree_and_size A a s)) = m_simplified (m_stats s)"
  "m_superposed (m_stats (update_stats_max_degree_and_size A a s)) = m_superposed (m_stats s)"
  "m_compute_steps (m_stats (update_stats_max_degree_and_size A a s))
     = m_compute_steps (m_stats s)"
  by (simp_all add: update_stats_max_degree_and_size_def)

text \<open>Observations depend on the heap only.\<close>

lemma obs_cong:
  "heap s' a = heap s a \<Longrightarrow> poly_of s' a = poly_of s a"
  "heap s' a = heap s a \<Longrightarrow> dep_of s' a = dep_of s a"
  "heap s' a = heap s a \<Longrightarrow> state_of s' a = state_of s a"
  "heap s' a = heap s a \<Longrightarrow> idx_of s' a = idx_of s a"
  "heap s' a = heap s a \<Longrightarrow> eq_at s' a st i = eq_at s a st i"
  by (simp_all add: poly_of_def dep_of_def state_of_def idx_of_def eq_at_def)

lemma eq_atD:
  "eq_at s a st i \<Longrightarrow> heap s a \<noteq> None"
  "eq_at s a st i \<Longrightarrow> state_of s a = st"
  "eq_at s a st i \<Longrightarrow> idx_of s a = i"
  by (auto simp: eq_at_def state_of_def idx_of_def split: option.splits)

lemma eq_at_unique:
  "eq_at s a st i \<Longrightarrow> eq_at s a st' i' \<Longrightarrow> st' = st \<and> i' = i"
  by (auto simp: eq_at_def split: option.splits)

subsection \<open>Well-formed queues\<close>

lemma queue_ok_nth:
  "queue_ok st s \<Longrightarrow> i < length (get_queue st s) \<Longrightarrow> eq_at s (get_queue st s ! i) st i"
  by (simp add: queue_ok_def)

lemma queue_ok_mem:
  assumes "queue_ok st s" "a \<in> set (get_queue st s)"
  shows "eq_at s a st (idx_of s a)" "idx_of s a < length (get_queue st s)"
    "get_queue st s ! idx_of s a = a" "heap s a \<noteq> None" "state_of s a = st"
proof -
  from assms(2) obtain i where i: "i < length (get_queue st s)" "get_queue st s ! i = a"
    by (auto simp: in_set_conv_nth)
  with assms(1) have e: "eq_at s a st i" by (auto dest: queue_ok_nth)
  then have "idx_of s a = i" by (rule eq_atD)
  with i e show "eq_at s a st (idx_of s a)" "idx_of s a < length (get_queue st s)"
    "get_queue st s ! idx_of s a = a" by simp_all
  from e show "heap s a \<noteq> None" "state_of s a = st" by (rule eq_atD)+
qed

lemma queue_ok_distinct:
  assumes "queue_ok st s" shows "distinct (get_queue st s)"
proof -
  { fix i j assume ij: "i < length (get_queue st s)" "j < length (get_queue st s)"
      "get_queue st s ! i = get_queue st s ! j"
    from assms ij(1) have "eq_at s (get_queue st s ! i) st i" by (rule queue_ok_nth)
    moreover from assms ij(2) have "eq_at s (get_queue st s ! j) st j" by (rule queue_ok_nth)
    ultimately have "i = j" using ij(3) by (auto dest: eq_at_unique) }
  then show ?thesis by (auto simp: distinct_conv_nth)
qed

lemma queue_ok_disjoint:
  assumes "queue_ok st s" "queue_ok st' s" "st \<noteq> st'"
    "a \<in> set (get_queue st s)"
  shows "a \<notin> set (get_queue st' s)"
  using queue_ok_mem(5)[OF assms(1,4)] queue_ok_mem(5)[OF assms(2)] assms(3) by auto

lemma get_queue_simps [simp]:
  "get_queue Solved s = m_solved s"
  "get_queue To_simplify s = m_to_simplify s"
  "get_queue Processed s = m_processed s"
  by (simp_all add: get_queue_def)


lemma frame_refl [simp]: "frame dst s s"
  by (simp add: frame_def)

lemma frame_trans: "frame dst s s' \<Longrightarrow> frame dst s' s'' \<Longrightarrow> frame dst s s''"
  by (simp add: frame_def)

lemma shape_eq_iff:
  fixes s s' :: "('p, 'd) solver"
  shows "shape (heap s' a) = shape (heap s a) \<Longrightarrow>
     (heap s' a = None \<longleftrightarrow> heap s a = None) \<and> eq_at s' a st i = eq_at s a st i
     \<and> state_of s' a = state_of s a \<and> idx_of s' a = idx_of s a"
  by (cases "heap s a"; cases "heap s' a")
     (auto simp: shape_def eq_at_def state_of_def idx_of_def)

lemma frame_shape:
  fixes s s' :: "('p, 'd) solver"
  shows "frame dst s s' \<Longrightarrow> shape (heap s' a) = shape (heap s a)"
  by (cases "a = dst") (auto simp: frame_def)

lemma frame_obs:
  assumes "frame dst s s'"
  shows "eq_at s' a st i = eq_at s a st i" "state_of s' a = state_of s a"
    "idx_of s' a = idx_of s a" "(heap s' a = None) = (heap s a = None)"
    "a \<noteq> dst \<Longrightarrow> poly_of s' a = poly_of s a" "a \<noteq> dst \<Longrightarrow> dep_of s' a = dep_of s a"
  using shape_eq_iff[OF frame_shape[OF assms], of a st i] assms
  by (auto simp: frame_def poly_of_def dep_of_def)

lemma frame_get_queue: "frame dst s s' \<Longrightarrow> get_queue st s' = get_queue st s"
  by (cases st) (simp_all add: frame_def)

lemma frame_queue_ok: "frame dst s s' \<Longrightarrow> queue_ok st s' = queue_ok st s"
  by (simp add: queue_ok_def frame_get_queue frame_obs)

lemma frame_queues_ok: "frame dst s s' \<Longrightarrow> queues_ok s' = queues_ok s"
  by (simp add: queues_ok_def frame_queue_ok)

lemma frame_alloc_ok: "frame dst s s' \<Longrightarrow> alloc_ok s' = alloc_ok s"
  by (simp add: alloc_ok_def frame_obs) (simp add: frame_def)

lemma frame_solver_done: "frame dst s s' \<Longrightarrow> solver_done s' = solver_done s"
  by (simp add: solver_done_def canceled_def frame_def)

subsection \<open>The reducer\<close>

lemma try_simplify_using_frame:
  "try_simplify_using A dst src clt s = (out, s') \<Longrightarrow> frame dst s s'"
  by (auto simp: try_simplify_using_def Let_def frame_def shape_def setter_defs
      option.map_comp comp_def split: option.splits if_splits)

lemma try_simplify_using_mem_out:
  "try_simplify_using A dst src clt s = (Mem_out t, s') \<Longrightarrow> t = s'"
  by (auto simp: try_simplify_using_def Let_def split: option.splits if_splits)

lemma simplify_pass_frame:
  "simplify_pass A e ps b s = (out, s') \<Longrightarrow> frame e s s'"
proof (induction ps arbitrary: b s)
  case Nil
  then show ?case by simp
next
  case (Cons p ps)
  obtain o1 s1 where t: "try_simplify_using A e p False s = (o1, s1)" by force
  from t have f1: "frame e s s1" by (rule try_simplify_using_frame)
  show ?case
  proof (cases o1)
    case (Mem_out t)
    with Cons.prems t f1 show ?thesis by simp
  next
    case (Ret r)
    then obtain x y where r: "o1 = Ret (x, y)" by (cases r) auto
    show ?thesis
    proof (cases "canceled s1 \<or> is_val A (poly_of s1 e)")
      case True
      with Cons.prems t r f1 show ?thesis by (auto simp: Let_def)
    next
      case False
      with Cons.prems t r have "simplify_pass A e ps (b \<or> x) s1 = (out, s')"
        by (auto simp: Let_def)
      from Cons.IH[OF this] f1 show ?thesis by (blast intro: frame_trans)
    qed
  qed
qed

lemma simplify_pass_mem_out:
  "simplify_pass A e ps b s = (Mem_out t, s') \<Longrightarrow> t = s'"
proof (induction ps arbitrary: b s)
  case Nil
  then show ?case by simp
next
  case (Cons p ps)
  then show ?case
    by (auto simp: Let_def split: prod.splits outcome.splits if_splits
        dest: try_simplify_using_mem_out)
qed

lemma simplify_using_eq_frame:
  assumes h: "simplify_using_eq A e eqs s = Some (out, s')"
  shows "frame e s s'"
proof -
  have "frame e s (snd (out, s'))"
  proof (rule simplify_using_eq.raw_induct
      [where P = "\<lambda>A e eqs s y. frame e s (snd y)", OF _ h], goal_cases)
    case (1 f A e eqs s y)
    obtain o1 s1 where p: "simplify_pass A e eqs False s = (o1, s1)" by force
    then have f1: "frame e s s1" by (rule simplify_pass_frame)
    show ?case
    proof (cases o1)
      case (Mem_out t)
      with 1(2) p f1 show ?thesis by auto
    next
      case (Ret b)
      show ?thesis
      proof (cases "b \<and> \<not> is_val A (poly_of s1 e)")
        case True
        with 1(2) p Ret have "f A e eqs s1 = Some y" by simp
        from 1(1)[OF this] f1 show ?thesis by (blast intro: frame_trans)
      next
        case False
        with 1(2) p Ret f1 show ?thesis by auto
      qed
    qed
  qed
  then show ?thesis by simp
qed

lemma simplify_using_eq_mem_out':
  assumes h: "simplify_using_eq A e eqs s = Some (out, s')"
  shows "\<forall>t'. out = Mem_out t' \<longrightarrow> t' = s'"
proof -
  have "\<forall>t'. fst (out, s') = Mem_out t' \<longrightarrow> t' = snd (out, s')"
  proof (rule simplify_using_eq.raw_induct
      [where P = "\<lambda>A e eqs s y. \<forall>t'. fst y = Mem_out t' \<longrightarrow> t' = snd y", OF _ h],
      goal_cases)
    case (1 f A e eqs s y)
    then show ?case
      by (auto split: prod.splits outcome.splits if_splits dest: simplify_pass_mem_out)
  qed
  then show ?thesis by simp
qed

lemma simplify_using_eq_mem_out:
  "simplify_using_eq A e eqs s = Some (Mem_out t, s') \<Longrightarrow> t = s'"
  by (drule simplify_using_eq_mem_out') simp

text \<open>A reduction that fails or changes nothing leaves the heap alone.\<close>

lemma try_simplify_using_heap:
  "try_simplify_using A dst src clt s = (out, s') \<Longrightarrow> heap s' = heap s \<or> (\<exists>c. out = Ret (True, c))"
  by (auto simp: try_simplify_using_def Let_def split: option.splits if_splits)

lemma try_simplify_using_nonval_mem_out:
  "try_simplify_using A dst src clt s = (Mem_out t, s') \<Longrightarrow> heap s' = heap s"
  by (auto dest: try_simplify_using_heap)

lemma simplify_pass_nonval_mem_out:
  "simplify_pass A e ps b s = (Mem_out t, s') \<Longrightarrow> \<not> is_val A (poly_of s e)
     \<Longrightarrow> \<not> is_val A (poly_of s' e)"
proof (induction ps arbitrary: b s)
  case Nil
  then show ?case by simp
next
  case (Cons p ps)
  obtain o1 s1 where t: "try_simplify_using A e p False s = (o1, s1)" by force
  show ?case
  proof (cases o1)
    case (Mem_out t')
    with t have "heap s1 = heap s" by (auto dest: try_simplify_using_nonval_mem_out)
    with Cons.prems t Mem_out show ?thesis by (auto simp: poly_of_def)
  next
    case (Ret r)
    with Cons.prems t show ?thesis
      by (auto simp: Let_def split: prod.splits if_splits dest: Cons.IH)
  qed
qed

lemma simplify_using_eq_nonval_mem_out':
  assumes h: "simplify_using_eq A e eqs s = Some (out, s')"
  shows "\<not> is_val A (poly_of s e) \<longrightarrow> (\<forall>t'. out = Mem_out t' \<longrightarrow> \<not> is_val A (poly_of s' e))"
proof -
  have "\<not> is_val A (poly_of s e) \<longrightarrow>
      (\<forall>t'. fst (out, s') = Mem_out t' \<longrightarrow> \<not> is_val A (poly_of (snd (out, s')) e))"
  proof (rule simplify_using_eq.raw_induct
      [where P = "\<lambda>A e eqs s y. \<not> is_val A (poly_of s e) \<longrightarrow>
         (\<forall>t'. fst y = Mem_out t' \<longrightarrow> \<not> is_val A (poly_of (snd y) e))", OF _ h],
      goal_cases)
    case (1 f A e eqs s y)
    then show ?case
      by (auto split: prod.splits outcome.splits if_splits dest: simplify_pass_nonval_mem_out)
  qed
  then show ?thesis by simp
qed

lemma simplify_using_eq_nonval_mem_out:
  "simplify_using_eq A e eqs s = Some (Mem_out t, s') \<Longrightarrow> \<not> is_val A (poly_of s e)
     \<Longrightarrow> \<not> is_val A (poly_of s' e)"
  by (drule simplify_using_eq_nonval_mem_out') simp


subsection \<open>Observations under updates\<close>

lemma poly_of_field_upd [simp]:
  "poly_of (next_addr_update f0 s) = poly_of s"
  "poly_of (m_solved_update f1 s) = poly_of s"
  "poly_of (m_to_simplify_update f2 s) = poly_of s"
  "poly_of (m_processed_update f3 s) = poly_of s"
  "poly_of (m_watch_update f4 s) = poly_of s"
  "poly_of (m_level2var_update f5 s) = poly_of s"
  "poly_of (m_var2level_update f6 s) = poly_of s"
  "poly_of (m_levelp1_update f7 s) = poly_of s"
  "poly_of (m_conflict_update f8 s) = poly_of s"
  "poly_of (m_too_complex_update f9 s) = poly_of s"
  "poly_of (m_stats_update f10 s) = poly_of s"
  "poly_of (m_config_update f11 s) = poly_of s"
  "poly_of (cancel_flag_update f12 s) = poly_of s"
  by (simp_all add: poly_of_def fun_eq_iff)

lemma dep_of_field_upd [simp]:
  "dep_of (next_addr_update f0 s) = dep_of s"
  "dep_of (m_solved_update f1 s) = dep_of s"
  "dep_of (m_to_simplify_update f2 s) = dep_of s"
  "dep_of (m_processed_update f3 s) = dep_of s"
  "dep_of (m_watch_update f4 s) = dep_of s"
  "dep_of (m_level2var_update f5 s) = dep_of s"
  "dep_of (m_var2level_update f6 s) = dep_of s"
  "dep_of (m_levelp1_update f7 s) = dep_of s"
  "dep_of (m_conflict_update f8 s) = dep_of s"
  "dep_of (m_too_complex_update f9 s) = dep_of s"
  "dep_of (m_stats_update f10 s) = dep_of s"
  "dep_of (m_config_update f11 s) = dep_of s"
  "dep_of (cancel_flag_update f12 s) = dep_of s"
  by (simp_all add: dep_of_def fun_eq_iff)

lemma state_of_field_upd [simp]:
  "state_of (next_addr_update f0 s) = state_of s"
  "state_of (m_solved_update f1 s) = state_of s"
  "state_of (m_to_simplify_update f2 s) = state_of s"
  "state_of (m_processed_update f3 s) = state_of s"
  "state_of (m_watch_update f4 s) = state_of s"
  "state_of (m_level2var_update f5 s) = state_of s"
  "state_of (m_var2level_update f6 s) = state_of s"
  "state_of (m_levelp1_update f7 s) = state_of s"
  "state_of (m_conflict_update f8 s) = state_of s"
  "state_of (m_too_complex_update f9 s) = state_of s"
  "state_of (m_stats_update f10 s) = state_of s"
  "state_of (m_config_update f11 s) = state_of s"
  "state_of (cancel_flag_update f12 s) = state_of s"
  by (simp_all add: state_of_def fun_eq_iff)

lemma idx_of_field_upd [simp]:
  "idx_of (next_addr_update f0 s) = idx_of s"
  "idx_of (m_solved_update f1 s) = idx_of s"
  "idx_of (m_to_simplify_update f2 s) = idx_of s"
  "idx_of (m_processed_update f3 s) = idx_of s"
  "idx_of (m_watch_update f4 s) = idx_of s"
  "idx_of (m_level2var_update f5 s) = idx_of s"
  "idx_of (m_var2level_update f6 s) = idx_of s"
  "idx_of (m_levelp1_update f7 s) = idx_of s"
  "idx_of (m_conflict_update f8 s) = idx_of s"
  "idx_of (m_too_complex_update f9 s) = idx_of s"
  "idx_of (m_stats_update f10 s) = idx_of s"
  "idx_of (m_config_update f11 s) = idx_of s"
  "idx_of (cancel_flag_update f12 s) = idx_of s"
  by (simp_all add: idx_of_def fun_eq_iff)

lemma eq_at_field_upd [simp]:
  "eq_at (next_addr_update f0 s) = eq_at s"
  "eq_at (m_solved_update f1 s) = eq_at s"
  "eq_at (m_to_simplify_update f2 s) = eq_at s"
  "eq_at (m_processed_update f3 s) = eq_at s"
  "eq_at (m_watch_update f4 s) = eq_at s"
  "eq_at (m_level2var_update f5 s) = eq_at s"
  "eq_at (m_var2level_update f6 s) = eq_at s"
  "eq_at (m_levelp1_update f7 s) = eq_at s"
  "eq_at (m_conflict_update f8 s) = eq_at s"
  "eq_at (m_too_complex_update f9 s) = eq_at s"
  "eq_at (m_stats_update f10 s) = eq_at s"
  "eq_at (m_config_update f11 s) = eq_at s"
  "eq_at (cancel_flag_update f12 s) = eq_at s"
  by (simp_all add: eq_at_def fun_eq_iff)


lemma obs_add_to_watch [simp]:
  "poly_of (add_to_watch A a s) = poly_of s" "dep_of (add_to_watch A a s) = dep_of s"
  "state_of (add_to_watch A a s) = state_of s" "idx_of (add_to_watch A a s) = idx_of s"
  "eq_at (add_to_watch A a s) = eq_at s"
  by (simp_all add: add_to_watch_def Let_def)

lemma obs_update_stats [simp]:
  "poly_of (update_stats_max_degree_and_size A a s) = poly_of s"
  "dep_of (update_stats_max_degree_and_size A a s) = dep_of s"
  "state_of (update_stats_max_degree_and_size A a s) = state_of s"
  "idx_of (update_stats_max_degree_and_size A a s) = idx_of s"
  "eq_at (update_stats_max_degree_and_size A a s) = eq_at s"
  by (simp_all add: update_stats_max_degree_and_size_def)

lemma eq_at_retire [simp]: "eq_at (retire a s) b st i = (b \<noteq> a \<and> eq_at s b st i)"
  by (simp add: eq_at_def)

lemma poly_of_retire [simp]: "b \<noteq> a \<Longrightarrow> poly_of (retire a s) b = poly_of s b"
  by (simp add: poly_of_def)

lemma state_of_retire [simp]: "b \<noteq> a \<Longrightarrow> state_of (retire a s) b = state_of s b"
  by (simp add: state_of_def)

lemma eq_at_push [simp]:
  "eq_at (push_equation st a s) b st' i =
     (if b = a then heap s a \<noteq> None \<and> st' = st \<and> i = length (get_queue st s)
      else eq_at s b st' i)"
  by (cases "heap s a") (auto simp: eq_at_def)

lemma poly_of_push [simp]: "poly_of (push_equation st a s) = poly_of s"
  by (rule ext, rename_tac b, case_tac "heap s a") (auto simp: poly_of_def)

lemma dep_of_push [simp]: "dep_of (push_equation st a s) = dep_of s"
  by (rule ext, rename_tac b, case_tac "heap s a") (auto simp: dep_of_def)

lemma state_of_push [simp]:
  "state_of (push_equation st a s) b = (if b = a \<and> heap s a \<noteq> None then st else state_of s b)"
  by (cases "heap s a") (auto simp: state_of_def)

lemma eq_at_set_conflict [simp]:
  "eq_at (set_conflict a s) b st' i =
     (if b = a then heap s a \<noteq> None \<and> st' = Solved \<and> i = length (m_solved s)
      else eq_at s b st' i)"
  by (simp add: set_conflict_def)

lemma poly_of_set_conflict [simp]: "poly_of (set_conflict a s) = poly_of s"
  by (simp add: set_conflict_def)

lemma state_of_set_conflict [simp]:
  "state_of (set_conflict a s) b = (if b = a \<and> heap s a \<noteq> None then Solved else state_of s b)"
  by (auto simp: set_conflict_def)

lemma eq_at_set_index [simp]:
  "eq_at (set_index a k s) b st i =
     (if b = a then heap s a \<noteq> None \<and> state_of s a = st \<and> i = k else eq_at s b st i)"
  by (cases "heap s a") (auto simp: eq_at_def set_index_def state_of_def)

lemma poly_of_set_index [simp]: "poly_of (set_index a k s) = poly_of s"
  by (rule ext, rename_tac b, case_tac "heap s a") (auto simp: poly_of_def set_index_def)

lemma state_of_set_index [simp]: "state_of (set_index a k s) = state_of s"
  by (rule ext, rename_tac b, case_tac "heap s a") (auto simp: state_of_def set_index_def)

lemma set_index_fields [simp]:
  "next_addr (set_index a k s) = next_addr s"
  "m_solved (set_index a k s) = m_solved s"
  "m_to_simplify (set_index a k s) = m_to_simplify s"
  "m_processed (set_index a k s) = m_processed s"
  "m_watch (set_index a k s) = m_watch s"
  "m_level2var (set_index a k s) = m_level2var s"
  "m_var2level (set_index a k s) = m_var2level s"
  "m_levelp1 (set_index a k s) = m_levelp1 s"
  "m_conflict (set_index a k s) = m_conflict s"
  "m_too_complex (set_index a k s) = m_too_complex s"
  "m_stats (set_index a k s) = m_stats s"
  "m_config (set_index a k s) = m_config s"
  "cancel_flag (set_index a k s) = cancel_flag s"
  "(heap (set_index a k s) b = None) = (heap s b = None)"
  by (simp_all add: set_index_def)

lemma heap_none_push [simp]: "(heap (push_equation st a s) b = None) = (heap s b = None)"
  by simp

lemma heap_none_set_conflict [simp]: "(heap (set_conflict a s) b = None) = (heap s b = None)"
  by simp

subsection \<open>Pushing, popping and retiring keep the queues well-formed\<close>

lemma queue_ok_push:
  assumes "queue_ok st' s" "heap s a \<noteq> None" "a \<notin> set (get_queue st' s)"
  shows "queue_ok st' (push_equation st a s)"
  using assms
  by (auto simp: queue_ok_def nth_append less_Suc_eq dest: nth_mem)

lemma queue_ok_retire:
  assumes "queue_ok st s" "a \<notin> set (get_queue st s)"
  shows "queue_ok st (retire a s)"
  using assms by (cases st) (auto simp: queue_ok_def dest: nth_mem)

lemma queue_ok_set_conflict:
  assumes "queue_ok st' s" "heap s a \<noteq> None" "a \<notin> set (get_queue st' s)"
  shows "queue_ok st' (set_conflict a s)"
  using assms unfolding set_conflict_def
  by (intro queue_ok_push) (simp_all add: queue_ok_def get_queue_def split: eq_state.splits)

text \<open>On a well-formed queue, \<open>pop_equation\<close> is: overwrite the slot of the equation
  with the last entry, give that entry the slot's index, drop the last slot.\<close>

lemma set_index_idem:
  "heap s a \<noteq> None \<Longrightarrow> idx_of s a = k \<Longrightarrow> set_index a k s = s"
  by (auto simp: set_index_def upd_eq_def idx_of_def fun_upd_idem)

lemma pop_equation_eq:
  assumes "queue_ok st s" "a \<in> set (get_queue st s)"
  shows "pop_equation a s =
     set_queue st (butlast ((get_queue st s)[idx_of s a := last (get_queue st s)]))
       (set_index (last (get_queue st s)) (idx_of s a) s)"
proof -
  let ?q = "get_queue st s"
  from queue_ok_mem[OF assms] have st: "state_of s a = st" and i: "idx_of s a < length ?q"
    and n: "?q ! idx_of s a = a" and h: "heap s a \<noteq> None" by auto
  from assms(2) have ne: "?q \<noteq> []" by auto
  show ?thesis
  proof (cases "idx_of s a = length ?q - 1")
    case True
    with n ne have l: "last ?q = a" by (simp add: last_conv_nth)
    with True n have "?q[idx_of s a := last ?q] = ?q" by (metis list_update_id)
    with True l h st ne show ?thesis
      by (simp add: pop_equation_def Let_def set_index_idem)
  next
    case False
    with st ne show ?thesis by (simp add: pop_equation_def Let_def)
  qed
qed

lemma butlast_update_last_set:
  assumes "distinct q" "i < length q"
  shows "set (butlast (q[i := last q])) = set q - {q ! i}"
    and "distinct (butlast (q[i := last q]))"
proof -
  from assms(2) have ne: "q \<noteq> []" by auto
  then obtain ys y where q: "q = ys @ [y]" by (metis rev_exhaust)
  show "set (butlast (q[i := last q])) = set q - {q ! i}"
  proof (cases "i < length ys")
    case True
    with q assms(1) have "butlast (q[i := last q]) = ys[i := y]"
      by (simp add: list_update_append)
    moreover from True assms(1) q have "set (ys[i := y]) = insert y (set ys - {ys ! i})"
      by (auto simp: set_update_distinct)
    ultimately show ?thesis using True q assms(1) by (auto simp: nth_append)
  next
    case False
    with assms(2) q have "i = length ys" by simp
    with q assms(1) show ?thesis by (auto simp: nth_append)
  qed
  show "distinct (butlast (q[i := last q]))"
  proof (cases "i < length ys")
    case True
    with q assms(1) have "butlast (q[i := last q]) = ys[i := y]"
      by (simp add: list_update_append)
    with True q assms(1) show ?thesis
      by (auto simp: distinct_list_update)
  next
    case False
    with assms(2) q have "i = length ys" by simp
    with q assms(1) show ?thesis by auto
  qed
qed


lemma pop_equation_fields [simp]:
  "next_addr (pop_equation a s) = next_addr s"
  "m_watch (pop_equation a s) = m_watch s"
  "m_level2var (pop_equation a s) = m_level2var s"
  "m_var2level (pop_equation a s) = m_var2level s"
  "m_levelp1 (pop_equation a s) = m_levelp1 s"
  "m_conflict (pop_equation a s) = m_conflict s"
  "m_too_complex (pop_equation a s) = m_too_complex s"
  "m_stats (pop_equation a s) = m_stats s"
  "m_config (pop_equation a s) = m_config s"
  "cancel_flag (pop_equation a s) = cancel_flag s"
  by (cases "state_of s a"; simp add: pop_equation_def Let_def set_queue_def)+

lemma pop_equation_obs [simp]:
  "poly_of (pop_equation a s) = poly_of s"
  "state_of (pop_equation a s) = state_of s"
  "(heap (pop_equation a s) b = None) = (heap s b = None)"
  by (cases "state_of s a"; simp add: pop_equation_def Let_def set_queue_def)+

lemma get_queue_set_queue [simp]:
  "get_queue st' (set_queue st q s) = (if st' = st then q else get_queue st' s)"
  by (cases st; cases st'; simp add: get_queue_def set_queue_def)

lemma get_queue_set_index [simp]: "get_queue st (set_index a k s) = get_queue st s"
  by (cases st; simp add: get_queue_def)

lemma eq_at_set_queue [simp]: "eq_at (set_queue st q s) = eq_at s"
  by (cases st; simp add: set_queue_def)

lemma pop_equation_queue:
  assumes "queue_ok st s" "a \<in> set (get_queue st s)"
  shows "set (get_queue st (pop_equation a s)) = set (get_queue st s) - {a}"
    and "distinct (get_queue st (pop_equation a s))"
    and "st' \<noteq> st \<Longrightarrow> get_queue st' (pop_equation a s) = get_queue st' s"
    and "length (get_queue st (pop_equation a s)) = length (get_queue st s) - 1"
proof -
  from queue_ok_mem[OF assms] have i: "idx_of s a < length (get_queue st s)"
    and n: "get_queue st s ! idx_of s a = a" by auto
  have d: "distinct (get_queue st s)" using assms(1) by (rule queue_ok_distinct)
  from butlast_update_last_set[OF d i] n
  show "set (get_queue st (pop_equation a s)) = set (get_queue st s) - {a}"
    and "distinct (get_queue st (pop_equation a s))"
    by (simp_all add: pop_equation_eq[OF assms])
  show "st' \<noteq> st \<Longrightarrow> get_queue st' (pop_equation a s) = get_queue st' s"
    by (simp add: pop_equation_eq[OF assms])
  show "length (get_queue st (pop_equation a s)) = length (get_queue st s) - 1"
    by (simp add: pop_equation_eq[OF assms])
qed

lemma pop_equation_queue_ok:
  assumes q: "queue_ok st s" and a: "a \<in> set (get_queue st s)"
  shows "queue_ok st (pop_equation a s)"
proof -
  let ?q = "get_queue st s"
  let ?i = "idx_of s a"
  from queue_ok_mem[OF assms] have i: "?i < length ?q" and n: "?q ! ?i = a" by auto
  have d: "distinct ?q" using q by (rule queue_ok_distinct)
  from i have ne: "?q \<noteq> []" by auto
  have l: "last ?q = ?q ! (length ?q - 1)" using ne by (rule last_conv_nth)
  have lm: "last ?q \<in> set ?q" using ne by simp
  { fix k assume k: "k < length ?q - 1"
    have "eq_at (set_index (last ?q) ?i s) (butlast (?q[?i := last ?q]) ! k) st k"
    proof (cases "k = ?i")
      case True
      with k i queue_ok_mem[OF q lm] show ?thesis
        by (simp add: nth_butlast)
    next
      case False
      with k have nk: "butlast (?q[?i := last ?q]) ! k = ?q ! k"
        by (simp add: nth_butlast)
      have "?q ! k \<noteq> last ?q"
        using nth_eq_iff_index_eq[OF d, of k "length ?q - 1"] k l by auto
      with nk k q show ?thesis by (simp add: queue_ok_def)
    qed }
  then show ?thesis
    by (simp add: pop_equation_eq[OF assms] queue_ok_def)
qed

lemma pop_equation_queue_ok_other:
  assumes q: "queue_ok st s" and a: "a \<in> set (get_queue st s)"
    and q': "queue_ok st' s" and ne: "st' \<noteq> st"
  shows "queue_ok st' (pop_equation a s)"
proof -
  let ?q = "get_queue st s"
  from a have lm: "last ?q \<in> set ?q" by (cases "?q = []") auto
  from queue_ok_disjoint[OF q q' ne[symmetric] lm]
  have "last ?q \<notin> set (get_queue st' s)" .
  with q' ne show ?thesis
    by (auto simp: pop_equation_eq[OF q a] queue_ok_def dest: nth_mem)
qed

lemma pop_equation_queues_ok:
  assumes "queues_ok s" "a \<in> set (get_queue st s)"
  shows "queues_ok (pop_equation a s)"
proof -
  from assms(1) have q: "queue_ok st' s" for st'
    by (cases st') (simp_all add: queues_ok_def)
  have "queue_ok st' (pop_equation a s)" for st'
    using pop_equation_queue_ok[OF q assms(2)] pop_equation_queue_ok_other[OF q assms(2) q]
    by (cases "st' = st") auto
  then show ?thesis by (simp add: queues_ok_def)
qed

subsection \<open>The scheduler\<close>

lemma pick_scan_spec:
  assumes irrefl: "\<And>p. \<not> lt A p p"
    and trans: "\<And>p q r. lt A p q \<Longrightarrow> lt A q r \<Longrightarrow> lt A p r"
    and acc: "case acc of None \<Rightarrow> \<forall>c \<in> set pre. \<not> eligible A s v c
              | Some a \<Rightarrow> a \<in> set pre \<and> eligible A s v a
                  \<and> (\<forall>c \<in> set pre. eligible A s v c \<longrightarrow> \<not> is_simpler A s c a)"
  shows "case pick_scan A s v ws acc of
           None \<Rightarrow> \<forall>c \<in> set (pre @ ws). \<not> eligible A s v c
         | Some e \<Rightarrow> e \<in> set (pre @ ws) \<and> eligible A s v e
             \<and> (\<forall>c \<in> set (pre @ ws). eligible A s v c \<longrightarrow> \<not> is_simpler A s c e)"
  using acc
proof (induction ws arbitrary: acc pre)
  case Nil
  then show ?case by (simp split: option.splits)
next
  case (Cons w ws)
  let ?acc' = "(if state_of s w = To_simplify \<and> var A (poly_of s w) = v
        then (case acc of None \<Rightarrow> Some w
              | Some e \<Rightarrow> if is_simpler A s w e then Some w else acc)
        else acc)"
  have "case ?acc' of None \<Rightarrow> \<forall>c \<in> set (pre @ [w]). \<not> eligible A s v c
              | Some a \<Rightarrow> a \<in> set (pre @ [w]) \<and> eligible A s v a
                  \<and> (\<forall>c \<in> set (pre @ [w]). eligible A s v c \<longrightarrow> \<not> is_simpler A s c a)"
  proof (cases "eligible A s v w")
    case False
    with Cons.prems show ?thesis
      by (auto simp: eligible_def split: option.splits)
  next
    case True
    note elig = True
    show ?thesis
    proof (cases acc)
      case None
      with True Cons.prems show ?thesis
        using irrefl by (auto simp: eligible_def is_simpler_def)
    next
      case (Some a)
      show ?thesis
      proof (cases "is_simpler A s w a")
        case True
        have "\<not> is_simpler A s c w" if "c \<in> set pre" "eligible A s v c" for c
        proof
          assume "is_simpler A s c w"
          with True have "is_simpler A s c a" unfolding is_simpler_def by (blast intro: trans)
          with Cons.prems Some that show False by auto
        qed
        with True elig Some irrefl show ?thesis
          by (auto simp: eligible_def is_simpler_def)
      next
        case False
        with True Some Cons.prems show ?thesis
          by (auto simp: eligible_def)
      qed
    qed
  qed
  note Cons.IH[OF this, unfolded append_assoc append_Cons append_Nil]
  moreover have "pick_scan A s v (w # ws) acc = pick_scan A s v ws ?acc'" by simp
  ultimately show ?case by (simp only:)
qed

lemma two_eqs_by_add:
  "two_eqs = add lin_algebra (Node False (Val 1) (Val 1)) [1]
               (add lin_algebra (Node False (Val 1) (Val 0)) [0] empty_solver)"
  by (simp add: two_eqs_def add_def lin_algebra_def empty_solver_def alloc_equation_def
      check_conflict_def is_conflict_def is_trivial_def poly_of_def push_equation_def
      set_state_def set_index_def upd_eq_def get_queue_def set_queue_def
      update_stats_max_degree_and_size_def Let_def fun_upd_twist)

subsection \<open>The reducer counts attempts\<close>

lemma try_simplify_using_simplified:
  assumes "src \<noteq> dst"
  shows "m_simplified (m_stats (snd (try_simplify_using A dst src clt s)))
         = m_simplified (m_stats s) + 1"
  using assms
  by (simp add: try_simplify_using_def Let_def update_stats_max_degree_and_size_def
      set_poly_def set_dep_def split: option.splits)

text \<open>
  Claim C10. Every call of \<open>try_simplify_using\<close> with a source distinct from the target
  adds one (modulo \<open>2^32\<close>) to the counter \<open>m_simplified\<close>, whatever the outcome of the
  call: no change, a reduction abandoned as too complex, a reduction carried out, or
  \<^verbatim>\<open>mem_out\<close>. \<open>collect_statistics\<close> reports that counter under the key
  \<^verbatim>\<open>dd.solver.simplified\<close>, so the key counts attempts.
\<close>

theorem simplified_counts_attempts:
  assumes "src \<noteq> dst" and "try_simplify_using A dst src clt s = (out, s')"
  shows "m_simplified (m_stats s') = m_simplified (m_stats s) + 1 \<and>
         map_of (collect_statistics s') ''dd.solver.simplified''
           = Some (unat (m_simplified (m_stats s) + 1))"
  using try_simplify_using_simplified[OF assms(1), of A clt s] assms(2)
  by (simp add: collect_statistics_def)

theorem simplified_counts_attempts_witness:
  "(0::nat) \<noteq> 1
   \<and> try_simplify_using oom_algebra 1 0 False two_eqs
       = (Mem_out (two_eqs\<lparr>m_stats := (m_stats two_eqs)\<lparr>m_simplified := 1\<rparr>\<rparr>),
          two_eqs\<lparr>m_stats := (m_stats two_eqs)\<lparr>m_simplified := 1\<rparr>\<rparr>)
   \<and> map_of (collect_statistics (two_eqs\<lparr>m_stats := (m_stats two_eqs)\<lparr>m_simplified := 1\<rparr>\<rparr>))
        ''dd.solver.simplified'' = Some 1"
proof -
  have run: "try_simplify_using oom_algebra 1 0 False two_eqs
       = (Mem_out (two_eqs\<lparr>m_stats := (m_stats two_eqs)\<lparr>m_simplified := 1\<rparr>\<rparr>),
          two_eqs\<lparr>m_stats := (m_stats two_eqs)\<lparr>m_simplified := 1\<rparr>\<rparr>)"
    by (simp add: try_simplify_using_def oom_algebra_def lin_algebra_def two_eqs_def
        poly_of_def Let_def)
  have ne: "(0::nat) \<noteq> 1" by simp
  from simplified_counts_attempts[OF ne run] run ne show ?thesis
    by (simp add: two_eqs_def)
qed

subsection \<open>An abandoned reduction leaves the target alone\<close>

text \<open>
  Claim C7. When the source is not the target, the reduced polynomial \<open>r\<close> differs from
  the target's polynomial and \<open>r\<close> is too complex, \<open>try_simplify_using\<close> returns
  \<open>false\<close>, leaves \<open>changed_leading_term\<close> as it was, and changes nothing in the solver
  but the attempt counter and the flag \<open>m_too_complex\<close>, which it sets: the heap, and
  with it the polynomial and the dependency of the target, are unchanged.
\<close>

theorem too_complex_abandons:
  assumes "src \<noteq> dst"
    and "reduce A (poly_of s dst) (poly_of s src) = Some r"
    and "r \<noteq> poly_of s dst"
    and "too_complex A r"
  shows "try_simplify_using A dst src clt s =
           (Ret (False, clt),
            s\<lparr>m_stats := (m_stats s)\<lparr>m_simplified := m_simplified (m_stats s) + 1\<rparr>,
              m_too_complex := True\<rparr>)
         \<and> m_too_complex (snd (try_simplify_using A dst src clt s))
         \<and> poly_of (snd (try_simplify_using A dst src clt s)) dst = poly_of s dst
         \<and> dep_of (snd (try_simplify_using A dst src clt s)) dst = dep_of s dst"
  using assms by (simp add: try_simplify_using_def Let_def poly_of_def dep_of_def)

theorem too_complex_abandons_witness:
  "(0::nat) \<noteq> 1
   \<and> reduce (capped_algebra 0) (poly_of two_eqs 1) (poly_of two_eqs 0) = Some (Val 1)
   \<and> Val 1 \<noteq> poly_of two_eqs 1
   \<and> too_complex (capped_algebra 0) (Val 1)
   \<and> fst (try_simplify_using (capped_algebra 0) 1 0 False two_eqs) = Ret (False, False)
   \<and> m_too_complex (snd (try_simplify_using (capped_algebra 0) 1 0 False two_eqs))
   \<and> poly_of (snd (try_simplify_using (capped_algebra 0) 1 0 False two_eqs)) 1
       = Node False (Val 1) (Val 1)
   \<and> dep_of (snd (try_simplify_using (capped_algebra 0) 1 0 False two_eqs)) 1 = [1]"
proof -
  have ne: "(0::nat) \<noteq> 1" by simp
  have red: "reduce (capped_algebra 0) (poly_of two_eqs 1) (poly_of two_eqs 0) = Some (Val 1)"
    by (simp add: capped_algebra_def lin_algebra_def two_eqs_def poly_of_def)
  have diff: "Val 1 \<noteq> poly_of two_eqs 1"
    by (simp add: two_eqs_def poly_of_def)
  have cplx: "too_complex (capped_algebra 0) (Val 1)"
    by (simp add: capped_algebra_def lin_algebra_def)
  have vals: "poly_of two_eqs 1 = Node False (Val 1) (Val 1)" "dep_of two_eqs 1 = [1]"
    by (simp_all add: two_eqs_def poly_of_def dep_of_def)
  from too_complex_abandons[OF ne red diff cplx, of False] ne red diff cplx vals
  show ?thesis by (simp add: poly_of_def dep_of_def)
qed

subsection \<open>Adding an equation\<close>

lemma add_zero: "is_zero A p \<Longrightarrow> add A p d s = s"
  by (simp add: add_def)

lemma add_conflict:
  assumes "\<not> is_zero A p" "is_val A p"
  shows "add A p d s =
     set_index (next_addr s) (length (m_solved s))
       (set_state (next_addr s) Solved
         (s\<lparr>heap := (heap s)(next_addr s \<mapsto>
               \<lparr>m_state = To_simplify, m_idx = 0, m_poly = p, m_dep = d\<rparr>),
            next_addr := Suc (next_addr s), m_conflict := Some (next_addr s)\<rparr>))
      \<lparr>m_solved := m_solved s @ [next_addr s]\<rparr>"
  using assms
  by (simp add: add_def alloc_equation_def check_conflict_def is_conflict_def is_trivial_def
      poly_of_def set_conflict_def push_equation_def Let_def get_queue_def set_queue_def
      set_state_def set_index_def)

text \<open>
  Claim C6. Let \<open>a\<close> be the address \<open>add\<close> allocates. If \<open>p\<close> is zero the solver is
  unchanged. If \<open>p\<close> is a non-zero constant, \<open>a\<close> becomes the conflict and goes to the
  solved queue; to-simplify and the watch index are unchanged. Otherwise \<open>a\<close> is pushed
  to to-simplify with polynomial \<open>p\<close> and dependency \<open>d\<close>; when the watch index is not
  empty (it has been initialised), \<open>a\<close> is appended to the watch list of \<open>var p\<close> and
  \<open>m_levelp1\<close> is raised to at least \<open>m_var2level[var p] + 1\<close>; when the watch index is
  empty, it and \<open>m_levelp1\<close> stay as they are.
\<close>

theorem add_behaviour:
  "let a = next_addr s; s' = add A p d s in
    (is_zero A p \<longrightarrow> s' = s)
    \<and> (\<not> is_zero A p \<and> is_val A p \<longrightarrow>
          m_conflict s' = Some a \<and> poly_of s' a = p \<and> dep_of s' a = d
          \<and> m_solved s' = m_solved s @ [a]
          \<and> m_to_simplify s' = m_to_simplify s \<and> m_watch s' = m_watch s)
    \<and> (\<not> is_zero A p \<and> \<not> is_val A p \<longrightarrow>
          m_to_simplify s' = m_to_simplify s @ [a]
          \<and> heap s' a = Some \<lparr>m_state = To_simplify, m_idx = length (m_to_simplify s),
                                m_poly = p, m_dep = d\<rparr>
          \<and> m_conflict s' = m_conflict s \<and> m_solved s' = m_solved s
          \<and> (m_watch s = [] \<longrightarrow> m_watch s' = [] \<and> m_levelp1 s' = m_levelp1 s)
          \<and> (m_watch s \<noteq> [] \<longrightarrow>
                m_watch s' = (m_watch s)[var A p := m_watch s ! var A p @ [a]]
                \<and> m_levelp1 s' = max (m_var2level s ! var A p + 1) (m_levelp1 s)
                \<and> m_var2level s ! var A p + 1 \<le> m_levelp1 s'
                \<and> (var A p < length (m_watch s) \<longrightarrow> a \<in> set (m_watch s' ! var A p))))"
  unfolding Let_def
  apply (intro conjI impI)
  apply (simp_all add: add_zero add_conflict)
  apply (simp_all add: poly_of_def dep_of_def set_state_def set_index_def)
  apply (simp_all add: add_def alloc_equation_def check_conflict_def is_conflict_def is_trivial_def
      poly_of_def  push_equation_def Let_def get_queue_def set_queue_def
      set_state_def set_index_def update_stats_max_degree_and_size_def add_to_watch_def)
  done

theorem add_behaviour_witness:
  "add lin_algebra (Val 0) [7] two_eqs = two_eqs
   \<and> m_conflict (add lin_algebra (Val 1) [7] two_eqs) = Some 2
   \<and> m_solved (add lin_algebra (Val 1) [7] two_eqs) = [2]
   \<and> m_to_simplify (add lin_algebra (Val 1) [7] two_eqs) = [0, 1]
   \<and> m_watch (add lin_algebra (Val 1) [7] two_eqs) = []
   \<and> m_to_simplify (add lin_algebra (Node False (Val 1) (Val 2)) [7] two_eqs) = [0, 1, 2]
   \<and> m_watch (add lin_algebra (Node False (Val 1) (Val 2)) [7] two_eqs) = []
   \<and> m_watch (add lin_algebra (Node False (Val 1) (Val 2)) [7]
        (two_eqs\<lparr>m_watch := [[0, 1]], m_var2level := [0]\<rparr>)) = [[0, 1, 2]]
   \<and> m_levelp1 (add lin_algebra (Node False (Val 1) (Val 2)) [7]
        (two_eqs\<lparr>m_watch := [[0, 1]], m_var2level := [0]\<rparr>)) = 1"
  using add_behaviour[of two_eqs lin_algebra "Val 0" "[7]"]
    add_behaviour[of two_eqs lin_algebra "Val 1" "[7]"]
    add_behaviour[of two_eqs lin_algebra "Node False (Val 1) (Val 2)" "[7]"]
    add_behaviour[of "two_eqs\<lparr>m_watch := [[0, 1]], m_var2level := [0]\<rparr>"
      lin_algebra "Node False (Val 1) (Val 2)" "[7]"]
  by (simp add: Let_def lin_algebra_def two_eqs_def)

subsection \<open>The scheduler picks the simplest equation of the highest level\<close>


lemma eligible_field_upd [simp]:
  "eligible A (m_levelp1_update f s) = eligible A s"
  "is_simpler A (m_levelp1_update f s) = is_simpler A s"
  by (simp_all add: eligible_def is_simpler_def fun_eq_iff)

lemma pick_next_unfold:
  "pick_next A s =
     (if m_levelp1 s > 0 then
        (let v = m_level2var s ! (m_levelp1 s - 1)
         in case pick_scan A s v (m_watch s ! v) None of
              Some eq \<Rightarrow>
                (let s1 = pop_equation eq s;
                     v' = var A (poly_of s1 eq)
                 in (Some eq, s1\<lparr>m_watch := (m_watch s1)[v' := remove1 eq (m_watch s1 ! v')]\<rparr>))
            | None \<Rightarrow> pick_next A (s\<lparr>m_levelp1 := m_levelp1 s - 1\<rparr>))
      else (None, s))"
  by (rule pick_next.simps)

text \<open>
  Claim C5. An entry \<open>c\<close> of the watch list of \<open>v\<close> is eligible when its state is
  to-simplify and its leading variable is \<open>v\<close>. Let the order of the algebra be
  irreflexive and transitive, the to-simplify queue well-formed, and every eligible watch
  entry below \<open>m_levelp1\<close> a member of that queue. Then \<open>pick_next\<close> returns none
  exactly when no level below \<open>m_levelp1\<close> has an eligible entry, and leaves
  \<open>m_levelp1 = 0\<close> and nothing else changed. Otherwise it returns an eligible entry \<open>e\<close>
  of the watch list of the highest such level \<open>l\<close>, no eligible entry of that list is
  simpler than \<open>e\<close>, \<open>m_levelp1\<close> becomes \<open>l + 1\<close>, one occurrence of \<open>e\<close> is erased
  from that watch list, and \<open>e\<close> is removed from the to-simplify queue.
\<close>

theorem pick_next_spec:
  assumes irrefl: "\<And>p. \<not> lt A p p"
    and trans: "\<And>p q r. lt A p q \<Longrightarrow> lt A q r \<Longrightarrow> lt A p r"
    and q: "queue_ok To_simplify s"
    and w: "\<forall>l < m_levelp1 s. \<forall>c \<in> set (m_watch s ! (m_level2var s ! l)).
              eligible A s (m_level2var s ! l) c \<longrightarrow> c \<in> set (m_to_simplify s)"
  shows "case pick_next A s of
     (None, s') \<Rightarrow> s' = s\<lparr>m_levelp1 := 0\<rparr>
        \<and> (\<forall>l < m_levelp1 s. \<forall>c \<in> set (m_watch s ! (m_level2var s ! l)).
              \<not> eligible A s (m_level2var s ! l) c)
   | (Some e, s') \<Rightarrow> (\<exists>l < m_levelp1 s.
        e \<in> set (m_watch s ! (m_level2var s ! l)) \<and> eligible A s (m_level2var s ! l) e
        \<and> (\<forall>c \<in> set (m_watch s ! (m_level2var s ! l)).
              eligible A s (m_level2var s ! l) c \<longrightarrow> \<not> is_simpler A s c e)
        \<and> (\<forall>l'. l < l' \<and> l' < m_levelp1 s \<longrightarrow>
              (\<forall>c \<in> set (m_watch s ! (m_level2var s ! l')).
                 \<not> eligible A s (m_level2var s ! l') c))
        \<and> m_levelp1 s' = Suc l
        \<and> m_watch s' = (m_watch s)[m_level2var s ! l :=
                           remove1 e (m_watch s ! (m_level2var s ! l))])
        \<and> set (m_to_simplify s') = set (m_to_simplify s) - {e}
        \<and> distinct (m_to_simplify s')
        \<and> m_solved s' = m_solved s \<and> m_processed s' = m_processed s"
  using irrefl trans q w
proof (induction A s rule: pick_next.induct)
  case (1 A s)
  note irrefl = "1.prems"(1) and trans = "1.prems"(2) and q = "1.prems"(3) and w = "1.prems"(4)
  show ?case
  proof (cases "m_levelp1 s > 0")
    case False
    then show ?thesis by (subst pick_next_unfold) simp
  next
    case True
    define l where "l = m_levelp1 s - 1"
    define v where "v = m_level2var s ! l"
    from True have l: "l < m_levelp1 s" "m_levelp1 s = Suc l" by (simp_all add: l_def)
    have scan: "case pick_scan A s v (m_watch s ! v) None of
           None \<Rightarrow> \<forall>c \<in> set ([] @ m_watch s ! v). \<not> eligible A s v c
         | Some e \<Rightarrow> e \<in> set ([] @ m_watch s ! v) \<and> eligible A s v e
             \<and> (\<forall>c \<in> set ([] @ m_watch s ! v). eligible A s v c \<longrightarrow> \<not> is_simpler A s c e)"
      by (rule pick_scan_spec[where pre = "[]" and acc = None, OF irrefl trans]) auto
    show ?thesis
    proof (cases "pick_scan A s v (m_watch s ! v) None")
      case None
      let ?s = "s\<lparr>m_levelp1 := m_levelp1 s - 1\<rparr>"
      from None scan have none: "\<forall>c \<in> set (m_watch s ! v). \<not> eligible A s v c" by simp
      have q': "queue_ok To_simplify ?s" using q by (simp add: queue_ok_def)
      have w': "\<forall>l < m_levelp1 ?s. \<forall>c \<in> set (m_watch ?s ! (m_level2var ?s ! l)).
              eligible A ?s (m_level2var ?s ! l) c \<longrightarrow> c \<in> set (m_to_simplify ?s)"
      proof (intro allI impI ballI)
        fix l' c assume a: "l' < m_levelp1 ?s" "c \<in> set (m_watch ?s ! (m_level2var ?s ! l'))"
          "eligible A ?s (m_level2var ?s ! l') c"
        from a(1) have "l' < m_levelp1 s" by simp
        with w a(2,3) show "c \<in> set (m_to_simplify ?s)" by simp
      qed
      have IH: "case pick_next A ?s of
     (None, s') \<Rightarrow> s' = ?s\<lparr>m_levelp1 := 0\<rparr>
        \<and> (\<forall>l < m_levelp1 ?s. \<forall>c \<in> set (m_watch ?s ! (m_level2var ?s ! l)).
              \<not> eligible A ?s (m_level2var ?s ! l) c)
   | (Some e, s') \<Rightarrow> (\<exists>l < m_levelp1 ?s.
        e \<in> set (m_watch ?s ! (m_level2var ?s ! l)) \<and> eligible A ?s (m_level2var ?s ! l) e
        \<and> (\<forall>c \<in> set (m_watch ?s ! (m_level2var ?s ! l)).
              eligible A ?s (m_level2var ?s ! l) c \<longrightarrow> \<not> is_simpler A ?s c e)
        \<and> (\<forall>l'. l < l' \<and> l' < m_levelp1 ?s \<longrightarrow>
              (\<forall>c \<in> set (m_watch ?s ! (m_level2var ?s ! l')).
                 \<not> eligible A ?s (m_level2var ?s ! l') c))
        \<and> m_levelp1 s' = Suc l
        \<and> m_watch s' = (m_watch ?s)[m_level2var ?s ! l :=
                           remove1 e (m_watch ?s ! (m_level2var ?s ! l))])
        \<and> set (m_to_simplify s') = set (m_to_simplify ?s) - {e}
        \<and> distinct (m_to_simplify s')
        \<and> m_solved s' = m_solved ?s \<and> m_processed s' = m_processed ?s"
        by (rule "1.IH"[OF True refl None[unfolded v_def l_def] irrefl trans q' w'])
      have pn: "pick_next A s = pick_next A ?s"
        using True None by (subst pick_next_unfold) (simp add: v_def l_def Let_def)
      obtain r s' where r: "pick_next A ?s = (r, s')" by force
      have ml: "m_levelp1 s - Suc 0 = l" by (simp add: l_def)
      show ?thesis
      proof (cases r)
        case None
        with IH r have "s' = s\<lparr>m_levelp1 := 0\<rparr>"
          and "\<forall>l' < l. \<forall>c \<in> set (m_watch s ! (m_level2var s ! l')).
              \<not> eligible A s (m_level2var s ! l') c"
          by (simp_all add: ml)
        with none l(2) r None show ?thesis
          unfolding pn by (auto simp: v_def less_Suc_eq)
      next
        case (Some e)
        with IH r ml obtain l0 where l0: "l0 < l"
          "e \<in> set (m_watch s ! (m_level2var s ! l0))" "eligible A s (m_level2var s ! l0) e"
          "\<forall>c \<in> set (m_watch s ! (m_level2var s ! l0)).
              eligible A s (m_level2var s ! l0) c \<longrightarrow> \<not> is_simpler A s c e"
          "\<forall>l'. l0 < l' \<and> l' < l \<longrightarrow>
              (\<forall>c \<in> set (m_watch s ! (m_level2var s ! l')).
                 \<not> eligible A s (m_level2var s ! l') c)"
          "m_levelp1 s' = Suc l0"
          "m_watch s' = (m_watch s)[m_level2var s ! l0 :=
                           remove1 e (m_watch s ! (m_level2var s ! l0))]"
          and rest: "set (m_to_simplify s') = set (m_to_simplify s) - {e}"
          "distinct (m_to_simplify s')" "m_solved s' = m_solved s"
          "m_processed s' = m_processed s"
          by auto
        have "\<forall>l'. l0 < l' \<and> l' < m_levelp1 s \<longrightarrow>
              (\<forall>c \<in> set (m_watch s ! (m_level2var s ! l')).
                 \<not> eligible A s (m_level2var s ! l') c)"
          using l0(5) none l(2) by (auto simp: less_Suc_eq v_def)
        with l0 l(2) rest show ?thesis
          unfolding pn r Some by (auto intro!: exI[of _ l0])
      qed
    next
      case (Some e)
      with scan have e: "e \<in> set (m_watch s ! v)" "eligible A s v e"
        "\<forall>c \<in> set (m_watch s ! v). eligible A s v c \<longrightarrow> \<not> is_simpler A s c e"
        by simp_all
      from e w l have eT: "e \<in> set (get_queue To_simplify s)"
        by (auto simp: v_def)
      from e have ve: "var A (poly_of s e) = v" by (simp add: eligible_def)
      have pn: "pick_next A s =
         (Some e, (pop_equation e s)\<lparr>m_watch := (m_watch s)[v := remove1 e (m_watch s ! v)]\<rparr>)"
        using True Some ve by (subst pick_next_unfold) (simp add: v_def l_def Let_def)
      from pop_equation_queue(1,2)[OF q eT]
        pop_equation_queue(3)[OF q eT, of Solved] pop_equation_queue(3)[OF q eT, of Processed]
      have "set (m_to_simplify (pop_equation e s)) = set (m_to_simplify s) - {e}"
        "distinct (m_to_simplify (pop_equation e s))"
        "m_solved (pop_equation e s) = m_solved s"
        "m_processed (pop_equation e s) = m_processed s"
        by simp_all
      with e l(2) show ?thesis
        unfolding pn by (auto intro!: exI[of _ l] simp: v_def)
    qed
  qed
qed

theorem pick_next_spec_witness:
  "queue_ok To_simplify two_watched
   \<and> fst (pick_next lin_algebra two_watched) = Some 0
   \<and> set (m_to_simplify (snd (pick_next lin_algebra two_watched))) = {1}
   \<and> distinct (m_to_simplify (snd (pick_next lin_algebra two_watched)))
   \<and> m_solved (snd (pick_next lin_algebra two_watched)) = []
   \<and> m_processed (snd (pick_next lin_algebra two_watched)) = []"
proof -
  have irrefl: "\<And>p. \<not> lt lin_algebra p p" by (simp add: lin_algebra_def)
  have trans: "\<And>p q r. lt lin_algebra p q \<Longrightarrow> lt lin_algebra q r \<Longrightarrow> lt lin_algebra p r"
    by (simp add: lin_algebra_def)
  have q: "queue_ok To_simplify two_watched"
    by (simp add: queue_ok_def two_watched_def two_eqs_def eq_at_def less_Suc_eq numeral_2_eq_2)
  have w: "\<forall>l < m_levelp1 two_watched.
      \<forall>c \<in> set (m_watch two_watched ! (m_level2var two_watched ! l)).
        eligible lin_algebra two_watched (m_level2var two_watched ! l) c
          \<longrightarrow> c \<in> set (m_to_simplify two_watched)"
    by (simp add: two_watched_def two_eqs_def less_Suc_eq numeral_2_eq_2)
  have run: "fst (pick_next lin_algebra two_watched) = Some 0"
    apply (subst pick_next.simps)
    apply (simp add: two_watched_def two_eqs_def)
    apply (subst pick_next.simps)
    apply (simp add: state_of_def poly_of_def lin_algebra_def is_simpler_def Let_def)
    done
  obtain e s' where ps: "pick_next lin_algebra two_watched = (e, s')" by force
  with run have e: "e = Some 0" by simp
  from pick_next_spec[OF irrefl trans q w] ps e
  have T: "set (m_to_simplify s') = set (m_to_simplify two_watched) - {0}"
    "distinct (m_to_simplify s')" "m_solved s' = m_solved two_watched"
    "m_processed s' = m_processed two_watched"
    by simp_all
  have "m_to_simplify two_watched = [0, 1]" "m_solved two_watched = []"
    "m_processed two_watched = []"
    by (simp_all add: two_watched_def two_eqs_def)
  with T q run ps show ?thesis by auto
qed

end
